theory Spec2Isabelle
  imports
    Main
    "HOL-Library.Char_ord"
    "HOL-Library.List_Lexorder"
    "HOL-Library.Multiset"
begin

section \<open>The arXiv listing spider\<close>

text \<open>
  A shallow embedding of \<^verbatim>\<open>daily_arxiv/spiders/arxiv.py\<close>: the class \<^verbatim>\<open>ArxivSpider\<close> with
  its constructor and its two callbacks \<^verbatim>\<open>parse\<close> (one listing page) and \<^verbatim>\<open>parse_abs\<close>
  (one abstract page).

  Conventions of the embedding.
  \<^item> A Python \<^verbatim>\<open>str\<close> is a \<^typ>\<open>string\<close>; a \<^typ>\<open>char\<close> is read as the code point
    \<^term>\<open>of_char c :: nat\<close>, so the texts covered are those whose code points are below 256.
    The character classes of Python (\<^verbatim>\<open>str.isspace\<close>, \<^verbatim>\<open>str.lower\<close>, \<^verbatim>\<open>\w\<close>, \<^verbatim>\<open>\d\<close>) are
    written out on that range.
  \<^item> The order on strings is the lexicographic order by code point, as Python compares
    \<^verbatim>\<open>str\<close> values.
  \<^item> What the selectors of the page (\<^verbatim>\<open>css\<close>, \<^verbatim>\<open>xpath\<close>) return is input of the model: a
    listing page is the sequence of its \<^verbatim>\<open>h3\<close> and \<^verbatim>\<open>dl\<close> blocks, an abstract page its
    canonical link and the text nodes of its \<^verbatim>\<open>h1\<close> elements. \<^verbatim>\<open>response.urljoin\<close> and
    \<^verbatim>\<open>response.follow\<close> are functions carried by the response; each returns a value or
    raises \<^verbatim>\<open>ValueError\<close>.
  \<^item> The attributes of the spider that the callbacks mutate are a record that every
    operation takes and returns. A callback is a generator; the model runs it to its end
    or to the exception it raises, and keeps what it yielded and changed until then.
\<close>

subsection \<open>Characters and strings of Python\<close>

definition code :: "char \<Rightarrow> nat" where
  "code c = of_char c"

text \<open>\<^verbatim>\<open>str.isspace\<close> on code points below 256.\<close>

definition py_isspace :: "char \<Rightarrow> bool" where
  "py_isspace c =
     (let n = code c in (9 \<le> n \<and> n \<le> 13) \<or> (28 \<le> n \<and> n \<le> 32) \<or> n = 133 \<or> n = 160)"

text \<open>\<^verbatim>\<open>str.lower\<close> on code points below 256: A-Z and the upper-case letters of Latin-1.\<close>

definition lower_char :: "char \<Rightarrow> char" where
  "lower_char c =
     (let n = code c in
      if (65 \<le> n \<and> n \<le> 90) \<or> (192 \<le> n \<and> n \<le> 222 \<and> n \<noteq> 215)
      then char_of (n + 32) else c)"

definition lower :: "string \<Rightarrow> string" where
  "lower s = map lower_char s"

text \<open>\<^verbatim>\<open>\w\<close> of a \<^verbatim>\<open>str\<close> pattern: \<^verbatim>\<open>str.isalnum\<close> or the underscore.\<close>

definition is_word :: "char \<Rightarrow> bool" where
  "is_word c =
     (let n = code c in
      (48 \<le> n \<and> n \<le> 57) \<or> (65 \<le> n \<and> n \<le> 90) \<or> n = 95 \<or> (97 \<le> n \<and> n \<le> 122) \<or>
      n = 170 \<or> n = 178 \<or> n = 179 \<or> n = 181 \<or> n = 185 \<or> n = 186 \<or>
      (188 \<le> n \<and> n \<le> 190) \<or> (192 \<le> n \<and> n \<noteq> 215 \<and> n \<noteq> 247))"

text \<open>\<^verbatim>\<open>[0-9]\<close>, which is also \<^verbatim>\<open>\d\<close> below 256.\<close>

definition is_digit :: "char \<Rightarrow> bool" where
  "is_digit c = (let n = code c in 48 \<le> n \<and> n \<le> 57)"

text \<open>\<^verbatim>\<open>[A-Z]\<close>\<close>

definition is_upper_AZ :: "char \<Rightarrow> bool" where
  "is_upper_AZ c = (let n = code c in 65 \<le> n \<and> n \<le> 90)"

text \<open>\<^verbatim>\<open>[a-z\-]\<close>\<close>

definition is_lower_or_hyphen :: "char \<Rightarrow> bool" where
  "is_lower_or_hyphen c = (let n = code c in (97 \<le> n \<and> n \<le> 122) \<or> n = 45)"

text \<open>\<^verbatim>\<open>[^/]\<close>\<close>

definition not_slash :: "char \<Rightarrow> bool" where
  "not_slash c = (c \<noteq> CHR ''/'')"

text \<open>\<^verbatim>\<open>s.strip()\<close>\<close>

definition strip :: "string \<Rightarrow> string" where
  "strip s = rev (dropWhile py_isspace (rev (dropWhile py_isspace s)))"

text \<open>\<^verbatim>\<open>s.split(",")\<close>: the pieces between the separators; a string without separator is one piece.\<close>

fun split :: "char \<Rightarrow> string \<Rightarrow> string list" where
  "split sep [] = [[]]"
| "split sep (c # cs) =
     (if c = sep then [] # split sep cs
      else (case split sep cs of
              [] \<Rightarrow> [[c]]
            | p # ps \<Rightarrow> (c # p) # ps))"

text \<open>\<^verbatim>\<open>sep.join(parts)\<close>\<close>

fun join :: "string \<Rightarrow> string list \<Rightarrow> string" where
  "join sep [] = []"
| "join sep [p] = p"
| "join sep (p # q # ps) = p @ sep @ join sep (q # ps)"

text \<open>\<^verbatim>\<open>s.replace(old, new)\<close> for a non-empty \<^verbatim>\<open>old\<close>: every occurrence, left to right, without overlap.\<close>

function replace :: "string \<Rightarrow> string \<Rightarrow> string \<Rightarrow> string" where
  "replace old new s =
     (if s = [] then []
      else if old \<noteq> [] \<and> take (length old) s = old
      then new @ replace old new (drop (length old) s)
      else hd s # replace old new (tl s))"
  by pat_completeness auto
termination
  by (relation "measure (\<lambda>(old, new, s). length s)") (auto simp: neq_Nil_conv)

declare replace.simps [simp del]

subsection \<open>The regular expressions of the spider\<close>

text \<open>
  The patterns of the source use literals, character classes with \<^verbatim>\<open>+\<close> and \<^verbatim>\<open>{n}\<close>, an
  optional literal, \<^verbatim>\<open>\b\<close>, \<^verbatim>\<open>$\<close> and at most one capture group. A pattern is the
  sequence of its elements; \<open>GrpOpen\<close> and \<open>GrpClose\<close> stand for the parentheses of the group.
\<close>

datatype rx =
    Lit string
  | Opt string
  | Rep nat "char \<Rightarrow> bool"
  | Plus "char \<Rightarrow> bool"
  | WordB
  | Eos
  | GrpOpen
  | GrpClose

text \<open>The state of a match: the character before the position, the text from the position on,
  the text at which the group was opened, and the text the group captured.\<close>

record mstate =
  prev :: "char option"
  rest :: string
  opened :: "string option"
  captured :: "string option"

definition advance :: "nat \<Rightarrow> mstate \<Rightarrow> mstate" where
  "advance n m =
     (if n = 0 then m
      else m\<lparr>prev := Some (rest m ! (n - 1)), rest := drop n (rest m)\<rparr>)"

definition word_opt :: "char option \<Rightarrow> bool" where
  "word_opt c = (case c of None \<Rightarrow> False | Some x \<Rightarrow> is_word x)"

definition next_char :: "mstate \<Rightarrow> char option" where
  "next_char m = (case rest m of [] \<Rightarrow> None | c # _ \<Rightarrow> Some c)"

fun first_some :: "('a \<Rightarrow> 'b option) \<Rightarrow> 'a list \<Rightarrow> 'b option" where
  "first_some f [] = None"
| "first_some f (x # xs) = (case f x of Some y \<Rightarrow> Some y | None \<Rightarrow> first_some f xs)"

text \<open>
  Matching at one position, by backtracking in the order of \<^verbatim>\<open>re\<close>: a greedy element tries
  its longest extent first. The result is the state after the first way to match the
  whole pattern.
\<close>

fun rx_match :: "rx list \<Rightarrow> mstate \<Rightarrow> mstate option" where
  "rx_match [] m = Some m"
| "rx_match (Lit w # rs) m =
     (if take (length w) (rest m) = w then rx_match rs (advance (length w) m) else None)"
| "rx_match (Opt w # rs) m =
     (case (if take (length w) (rest m) = w then rx_match rs (advance (length w) m) else None) of
        Some r \<Rightarrow> Some r
      | None \<Rightarrow> rx_match rs m)"
| "rx_match (Rep n C # rs) m =
     (if n \<le> length (rest m) \<and> list_all C (take n (rest m))
      then rx_match rs (advance n m) else None)"
| "rx_match (Plus C # rs) m =
     first_some (\<lambda>k. rx_match rs (advance k m))
       (rev [1 ..< Suc (length (takeWhile C (rest m)))])"
| "rx_match (WordB # rs) m =
     (if word_opt (prev m) \<noteq> word_opt (next_char m) then rx_match rs m else None)"
| "rx_match (Eos # rs) m =
     (if rest m = [] \<or> rest m = [CHR 0x0A] then rx_match rs m else None)"
| "rx_match (GrpOpen # rs) m = rx_match rs (m\<lparr>opened := Some (rest m)\<rparr>)"
| "rx_match (GrpClose # rs) m =
     rx_match rs
       (case opened m of
          None \<Rightarrow> m
        | Some s0 \<Rightarrow> m\<lparr>captured := Some (take (length s0 - length (rest m)) s0)\<rparr>)"

text \<open>\<^verbatim>\<open>re.search\<close>: the first position, from the left, at which the pattern matches.\<close>

fun search_from :: "rx list \<Rightarrow> char option \<Rightarrow> string \<Rightarrow> mstate option" where
  "search_from p c [] =
     rx_match p \<lparr>prev = c, rest = [], opened = None, captured = None\<rparr>"
| "search_from p c (x # xs) =
     (case rx_match p \<lparr>prev = c, rest = x # xs, opened = None, captured = None\<rparr> of
        Some r \<Rightarrow> Some r
      | None \<Rightarrow> search_from p (Some x) xs)"

definition search :: "rx list \<Rightarrow> string \<Rightarrow> mstate option" where
  "search p s = search_from p None s"

text \<open>\<^verbatim>\<open>m.group(1)\<close>\<close>

definition group1 :: "mstate \<Rightarrow> string" where
  "group1 m = (case captured m of None \<Rightarrow> [] | Some g \<Rightarrow> g)"

text \<open>\<^verbatim>\<open>re.findall\<close> for a pattern with one group: the captures of the successive matches,
  each search starting where the match before it ended. (A match of no character moves
  on by one character; the pattern used with it has none.)\<close>

function findall_from :: "rx list \<Rightarrow> char option \<Rightarrow> string \<Rightarrow> string list" where
  "findall_from p c s =
     (case search_from p c s of
        None \<Rightarrow> []
      | Some r \<Rightarrow>
          (if length (rest r) < length s
           then group1 r # findall_from p (prev r) (rest r)
           else (case s of [] \<Rightarrow> [group1 r] | x # xs \<Rightarrow> group1 r # findall_from p (Some x) xs)))"
  by pat_completeness auto
termination
  by (relation "measure (\<lambda>(p, c, s). length s)") auto

declare findall_from.simps [simp del]

definition findall :: "rx list \<Rightarrow> string \<Rightarrow> string list" where
  "findall p s = findall_from p None s"

subsection \<open>The patterns\<close>

text \<open>\<^verbatim>\<open>r"/list/([^/]+)/new"\<close>\<close>
definition rx_list :: "rx list" where
  "rx_list = [Lit ''/list/'', GrpOpen, Plus not_slash, GrpClose, Lit ''/new'']"

text \<open>\<^verbatim>\<open>r"\bnew submissions?\b"\<close>\<close>
definition rx_new :: "rx list" where
  "rx_new = [WordB, Lit ''new submission'', Opt ''s'', WordB]"

text \<open>\<^verbatim>\<open>r"\bcross-?lists?\b"\<close>\<close>
definition rx_cross_lists :: "rx list" where
  "rx_cross_lists = [WordB, Lit ''cross'', Opt ''-'', Lit ''list'', Opt ''s'', WordB]"

text \<open>\<^verbatim>\<open>r"\bcross submissions?\b"\<close>\<close>
definition rx_cross_submissions :: "rx list" where
  "rx_cross_submissions = [WordB, Lit ''cross submission'', Opt ''s'', WordB]"

text \<open>\<^verbatim>\<open>r"\breplacements?\b"\<close>\<close>
definition rx_replacements :: "rx list" where
  "rx_replacements = [WordB, Lit ''replacement'', Opt ''s'', WordB]"

text \<open>\<^verbatim>\<open>r"\breplacement submissions?\b"\<close>\<close>
definition rx_replacement_submissions :: "rx list" where
  "rx_replacement_submissions = [WordB, Lit ''replacement submission'', Opt ''s'', WordB]"

text \<open>\<^verbatim>\<open>r"/abs/([0-9]{4}\.[0-9]{5})"\<close>\<close>
definition rx_abs_id :: "rx list" where
  "rx_abs_id = [Lit ''/abs/'', GrpOpen, Rep 4 is_digit, Lit ''.'', Rep 5 is_digit, GrpClose]"

text \<open>\<^verbatim>\<open>code_regex = r"\(([a-z\-]+\.[A-Z]{2})\)"\<close>\<close>
definition code_regex :: "rx list" where
  "code_regex =
     [Lit ''('', GrpOpen, Plus is_lower_or_hyphen, Lit ''.'', Rep 2 is_upper_AZ, GrpClose, Lit '')'']"

text \<open>\<^verbatim>\<open>r"/abs/\d{4}\.\d{5}(v\d+)$"\<close>\<close>
definition rx_canonical :: "rx list" where
  "rx_canonical =
     [Lit ''/abs/'', Rep 4 is_digit, Lit ''.'', Rep 5 is_digit,
      GrpOpen, Lit ''v'', Plus is_digit, GrpClose, Eos]"

text \<open>\<^verbatim>\<open>r"\b(v\d+)\b"\<close>\<close>
definition rx_h1 :: "rx list" where
  "rx_h1 = [WordB, GrpOpen, Lit ''v'', Plus is_digit, GrpClose, WordB]"

subsection \<open>Data of the spider\<close>

text \<open>\<^verbatim>\<open>custom_settings = {"CONCURRENT_REQUESTS": 1}\<close>\<close>

definition CONCURRENT_REQUESTS :: nat where
  "CONCURRENT_REQUESTS = 1"

text \<open>\<^verbatim>\<open>self.CAT_PRIORITY = {"math.QA": 0, "math.RT": 1}\<close>; it is never assigned again.\<close>

definition CAT_PRIORITY :: "string \<rightharpoonup> int" where
  "CAT_PRIORITY = [''math.QA'' \<mapsto> 0, ''math.RT'' \<mapsto> 1]"

text \<open>\<^verbatim>\<open>self.CAT_PRIORITY.get(c, 99)\<close>, the sort key of the constructor and the
  \<^verbatim>\<open>cat_priority\<close> of a listing page.\<close>

definition priority :: "string \<Rightarrow> int" where
  "priority c = (case CAT_PRIORITY c of Some r \<Rightarrow> r | None \<Rightarrow> 99)"

text \<open>
  The dictionary \<^verbatim>\<open>meta_item\<close> that \<^verbatim>\<open>parse\<close> hands to \<^verbatim>\<open>parse_abs\<close>, with the keys
  \<^verbatim>\<open>id\<close>, \<^verbatim>\<open>section\<close>, \<^verbatim>\<open>abs\<close>, \<^verbatim>\<open>pdf\<close>, \<^verbatim>\<open>categories\<close>, \<^verbatim>\<open>cat_priority\<close>, \<^verbatim>\<open>section_rank\<close>.
  \<^verbatim>\<open>categories\<close> is \<^verbatim>\<open>list(paper_categories)\<close>, a list without repetition whose order
  Python leaves open: the model keeps its set of elements.
\<close>

record meta_item =
  m_id :: string
  m_section :: string
  m_abs :: string
  m_pdf :: string
  m_categories :: "string set"
  m_cat_priority :: int
  m_section_rank :: int

text \<open>The dictionary \<^verbatim>\<open>item\<close> kept in the buffer: the keys of \<^verbatim>\<open>meta_item\<close> and \<^verbatim>\<open>version\<close>.\<close>

record item =
  id_key :: string
  section_key :: string
  abs_key :: string
  pdf_key :: string
  categories :: "string set"
  cat_priority :: int
  section_rank :: int
  version :: string

text \<open>The dictionary that is yielded: \<^verbatim>\<open>cat_priority\<close> and \<^verbatim>\<open>section_rank\<close> popped.\<close>

record out_item =
  out_id :: string
  out_section :: string
  out_abs :: string
  out_pdf :: string
  out_categories :: "string set"
  out_version :: string

text \<open>The attributes of the spider. \<open>buffer\<close> is \<^verbatim>\<open>self._buffer\<close>, \<open>None\<close> while the
  attribute does not exist.\<close>

record spider =
  target_categories :: "string set"
  start_urls :: "string list"
  seen_ids :: "string set"
  buffer :: "item list option"

subsection \<open>The constructor\<close>

text \<open>The argument is the value of the environment variable \<^verbatim>\<open>CATEGORIES\<close>, if it is set.
  \<^verbatim>\<open>list.sort\<close> is stable, as \<^const>\<open>sort_key\<close> is.\<close>

definition cats_listed :: "string option \<Rightarrow> string list" where
  "cats_listed env =
     (let categories = (case env of None \<Rightarrow> ''cs.CV'' | Some v \<Rightarrow> v)
      in [strip c. c \<leftarrow> split CHR '','' categories, strip c \<noteq> []])"

definition cats_of :: "string option \<Rightarrow> string list" where
  "cats_of env = sort_key priority (cats_listed env)"

definition list_url :: "string \<Rightarrow> string" where
  "list_url cat = ''https://arxiv.org/list/'' @ cat @ ''/new''"

definition spider_init :: "string option \<Rightarrow> spider" where
  "spider_init env =
     (let cats = cats_of env
      in \<lparr>target_categories = set cats,
          start_urls = map list_url cats,
          seen_ids = {},
          buffer = None\<rparr>)"

subsection \<open>The listing page\<close>

text \<open>
  What the selectors return on one entry: for the \<^verbatim>\<open>dt\<close>,
  \<^verbatim>\<open>css("a[title='Abstract']::attr(href)").get()\<close> and \<^verbatim>\<open>css("a[href*='/abs/']::attr(href)").get()\<close>;
  for the \<^verbatim>\<open>dd\<close>, \<^verbatim>\<open>css(".list-subjects ::text").getall()\<close>.
\<close>

record dt =
  abstract_href :: "string option"
  abs_href :: "string option"

record dd =
  list_subjects :: "string list"

text \<open>A block of \<^verbatim>\<open>//div[@id='dlpage']/*[self::h3 or self::dl]\<close>: an \<^verbatim>\<open>h3\<close> with its text
  nodes, or a \<^verbatim>\<open>dl\<close> with its \<^verbatim>\<open>dt\<close> and its \<^verbatim>\<open>dd\<close> elements.\<close>

datatype block = H3 "string list" | DL "dt list" "dd list"

text \<open>The exception that \<^verbatim>\<open>response.urljoin\<close> and \<^verbatim>\<open>response.follow\<close> raise on a URL they
  refuse. The source catches no exception.\<close>

datatype error = ValueError

text \<open>The response of a listing page. \<open>urljoin\<close> is \<^verbatim>\<open>response.urljoin\<close>: the absolute URL
  of a link, or the exception. \<open>follow\<close> is \<^verbatim>\<open>response.follow\<close> of line 123 as a
  function of its URL: the URL of the request it builds, or the exception.\<close>

record listing =
  url :: string
  urljoin :: "string \<Rightarrow> error + string"
  follow :: "string \<Rightarrow> error + string"
  dlpage :: "block list"

text \<open>What \<^verbatim>\<open>parse\<close> yields or logs: a request for the abstract page with its
  \<^verbatim>\<open>meta_item\<close>, or the debug message of a skipped entry (identifier, categories of the
  paper, target categories).\<close>

datatype action = Follow meta_item | Debug string "string set" "string set"

text \<open>The result of a scan, of one entry or of many: what was yielded and logged, the
  exception that ended it if one was raised, and the spider after it.\<close>

type_synonym scan = "action list \<times> error option \<times> spider"

definition yielded :: "scan \<Rightarrow> action list" where
  "yielded r = fst r"

definition raised :: "scan \<Rightarrow> error option" where
  "raised r = fst (snd r)"

definition after :: "scan \<Rightarrow> spider" where
  "after r = snd (snd r)"

text \<open>One step of a loop and then the rest of it: an exception of the step ends the loop,
  and what the step yielded and changed stays.\<close>

definition and_then :: "scan \<Rightarrow> (spider \<Rightarrow> scan) \<Rightarrow> scan" where
  "and_then r f =
     (case r of
        (a, Some e, self) \<Rightarrow> (a, Some e, self)
      | (a, None, self) \<Rightarrow> (case f self of (a', e', self') \<Rightarrow> (a @ a', e', self')))"

text \<open>The heading of an \<^verbatim>\<open>h3\<close> (lines 58 to 73): the new values of
  \<^verbatim>\<open>current_section_text\<close> and \<^verbatim>\<open>current_section_rank\<close>.\<close>

definition heading_section :: "string list \<Rightarrow> string \<times> int" where
  "heading_section texts =
     (let heading = strip (concat texts);
          heading_lower = lower heading
      in if search rx_new heading_lower \<noteq> None then (''new'', 0)
         else if search rx_cross_lists heading_lower \<noteq> None
                 \<or> search rx_cross_submissions heading_lower \<noteq> None then (''cross'', 1)
         else if search rx_replacements heading_lower \<noteq> None
                 \<or> search rx_replacement_submissions heading_lower \<noteq> None then (''repl'', 2)
         else (''other'', 3))"

text \<open>Lines 84 to 88: the link of the entry, \<open>None\<close> where the source says \<^verbatim>\<open>continue\<close>.
  \<^verbatim>\<open>not abs_href\<close> holds of \<^verbatim>\<open>None\<close> and of the empty string.\<close>

definition truthy :: "string option \<Rightarrow> bool" where
  "truthy h = (case h of None \<Rightarrow> False | Some s \<Rightarrow> s \<noteq> [])"

definition entry_href :: "dt \<Rightarrow> string option" where
  "entry_href paper_dt =
     (let h = abstract_href paper_dt;
          h = (if \<not> truthy h then abs_href paper_dt else h)
      in if \<not> truthy h then None else h)"

text \<open>Lines 84 to 94: the exception of \<^verbatim>\<open>response.urljoin\<close> (line 90), or \<open>None\<close> where the
  source says \<^verbatim>\<open>continue\<close>, or the identifier of the entry together with \<^verbatim>\<open>abs_url\<close>.\<close>

definition entry_id :: "listing \<Rightarrow> dt \<Rightarrow> error + (string \<times> string) option" where
  "entry_id response paper_dt =
     (case entry_href paper_dt of
        None \<Rightarrow> Inr None
      | Some h \<Rightarrow>
          (case urljoin response h of
             Inl e \<Rightarrow> Inl e
           | Inr abs_url \<Rightarrow>
               (case search rx_abs_id abs_url of
                  None \<Rightarrow> Inr None
                | Some mid \<Rightarrow> Inr (Some (group1 mid, abs_url)))))"

text \<open>Lines 102 to 108.\<close>

definition subjects_text :: "dd \<Rightarrow> string" where
  "subjects_text paper_dd = join '' '' [strip t. t \<leftarrow> list_subjects paper_dd, strip t \<noteq> []]"

definition paper_categories :: "dd \<Rightarrow> string set" where
  "paper_categories paper_dd = set (findall code_regex (subjects_text paper_dd))"

text \<open>The body of the loop over the entries (lines 83 to 133), for one pair of
  \<^verbatim>\<open>zip(dts, dds)\<close>. \<open>cur\<close> is (\<^verbatim>\<open>current_section_text\<close>, \<^verbatim>\<open>current_section_rank\<close>).
  The identifier is added to \<^verbatim>\<open>seen_ids\<close> (line 99) before the filter; the request is
  built by \<^verbatim>\<open>response.follow\<close> (line 123) before it is yielded, so that an exception of
  \<^verbatim>\<open>response.follow\<close> leaves the identifier seen and yields nothing.\<close>

definition parse_paper ::
  "listing \<Rightarrow> int \<Rightarrow> string \<times> int \<Rightarrow> spider \<Rightarrow> dt \<times> dd \<Rightarrow> scan" where
  "parse_paper response cat_prio cur self p =
     (case entry_id response (fst p) of
        Inl e \<Rightarrow> ([], Some e, self)
      | Inr None \<Rightarrow> ([], None, self)
      | Inr (Some (arxiv_id, abs_url)) \<Rightarrow>
          if arxiv_id \<in> seen_ids self then ([], None, self)
          else
            (let self' = self\<lparr>seen_ids := insert arxiv_id (seen_ids self)\<rparr>;
                 cats = paper_categories (snd p);
                 txt = subjects_text (snd p)
             in if cats \<inter> target_categories self' \<noteq> {} \<or> txt = []
                then (case follow response abs_url of
                        Inl e \<Rightarrow> ([], Some e, self')
                      | Inr request_url \<Rightarrow>
                          ([Follow \<lparr>m_id = arxiv_id,
                                    m_section = fst cur,
                                    m_abs = abs_url,
                                    m_pdf = replace ''/abs/'' ''/pdf/'' abs_url,
                                    m_categories = (if txt \<noteq> [] then cats else {}),
                                    m_cat_priority = cat_prio,
                                    m_section_rank = snd cur\<rparr>], None, self'))
                else ([Debug arxiv_id cats (target_categories self')], None, self')))"

fun parse_papers ::
  "listing \<Rightarrow> int \<Rightarrow> string \<times> int \<Rightarrow> spider \<Rightarrow> (dt \<times> dd) list \<Rightarrow> scan" where
  "parse_papers response cat_prio cur self [] = ([], None, self)"
| "parse_papers response cat_prio cur self (p # ps) =
     and_then (parse_paper response cat_prio cur self p)
       (\<lambda>self1. parse_papers response cat_prio cur self1 ps)"

text \<open>The loop over the blocks (lines 53 to 133).\<close>

fun parse_blocks ::
  "listing \<Rightarrow> int \<Rightarrow> string \<times> int \<Rightarrow> spider \<Rightarrow> block list \<Rightarrow> scan" where
  "parse_blocks response cat_prio cur self [] = ([], None, self)"
| "parse_blocks response cat_prio cur self (H3 texts # bs) =
     parse_blocks response cat_prio (heading_section texts) self bs"
| "parse_blocks response cat_prio cur self (DL dts dds # bs) =
     and_then (parse_papers response cat_prio cur self (zip dts dds))
       (\<lambda>self1. parse_blocks response cat_prio cur self1 bs)"

text \<open>\<^verbatim>\<open>source_cat\<close> (lines 41 and 42).\<close>

definition source_cat :: "string \<Rightarrow> string" where
  "source_cat u = (case search rx_list u of None \<Rightarrow> [] | Some mcat \<Rightarrow> group1 mcat)"

definition parse :: "spider \<Rightarrow> listing \<Rightarrow> scan" where
  "parse self response =
     parse_blocks response (priority (source_cat (url response))) (''other'', 3) self
       (dlpage response)"

subsection \<open>The abstract page\<close>

text \<open>\<^verbatim>\<open>xpath("//link[@rel='canonical']/@href").get()\<close> and \<^verbatim>\<open>xpath("//h1//text()").getall()\<close>.\<close>

record abs_page =
  canonical :: "string option"
  h1_texts :: "string list"

text \<open>The variable \<^verbatim>\<open>version\<close> after line 154.\<close>

definition version_of :: "abs_page \<Rightarrow> string" where
  "version_of response =
     (let version = ''v1'';
          version =
            (case canonical response of
               None \<Rightarrow> version
             | Some c \<Rightarrow>
                 if c = [] then version
                 else (case search rx_canonical c of
                         None \<Rightarrow> version
                       | Some m \<Rightarrow> group1 m))
      in if version = ''v1''
         then (case search rx_h1 (join '' '' (h1_texts response)) of
                 None \<Rightarrow> version
               | Some m2 \<Rightarrow> group1 m2)
         else version)"

text \<open>\<^verbatim>\<open>list.sort(key=f, reverse=True)\<close>: descending, and still stable.\<close>

definition sort_key_reverse :: "('a \<Rightarrow> 'k::linorder) \<Rightarrow> 'a list \<Rightarrow> 'a list" where
  "sort_key_reverse f xs = rev (sort_key f (rev xs))"

text \<open>Lines 170 to 172.\<close>

definition sort_items :: "item list \<Rightarrow> item list" where
  "sort_items items =
     sort_key cat_priority (sort_key section_rank (sort_key_reverse id_key items))"

text \<open>Lines 174 and 175.\<close>

definition pop_keys :: "item \<Rightarrow> out_item" where
  "pop_keys it =
     \<lparr>out_id = id_key it, out_section = section_key it, out_abs = abs_key it,
      out_pdf = pdf_key it, out_categories = categories it, out_version = version it\<rparr>"

definition make_item :: "meta_item \<Rightarrow> string \<Rightarrow> item" where
  "make_item meta v =
     \<lparr>id_key = m_id meta, section_key = m_section meta, abs_key = m_abs meta,
      pdf_key = m_pdf meta, categories = m_categories meta,
      cat_priority = m_cat_priority meta, section_rank = m_section_rank meta,
      version = v\<rparr>"

text \<open>\<^verbatim>\<open>parse_abs\<close>: the items yielded by the call and the spider after it.\<close>

definition parse_abs :: "spider \<Rightarrow> abs_page \<Rightarrow> meta_item \<Rightarrow> out_item list \<times> spider" where
  "parse_abs self response meta =
     (let it = make_item meta (version_of response);
          buf = (case buffer self of None \<Rightarrow> [] | Some b \<Rightarrow> b) @ [it];
          self1 = self\<lparr>buffer := Some buf\<rparr>
      in if length buf \<ge> card (seen_ids self1)
         then (map pop_keys (sort_items buf), self1\<lparr>buffer := Some []\<rparr>)
         else ([], self1))"

subsection \<open>A run of the spider\<close>

text \<open>
  The framework calls the callbacks one after the other: \<^verbatim>\<open>parse\<close> with a listing page,
  \<^verbatim>\<open>parse_abs\<close> with an abstract page and the \<^verbatim>\<open>meta_item\<close> of the request. A run is the
  sequence of these calls; it gives what \<^verbatim>\<open>parse\<close> yielded and logged, the items that
  \<^verbatim>\<open>parse_abs\<close> yielded, in this order, and the spider at the end. An exception of a
  callback ends that call only: the framework logs it and goes on with the next call.
\<close>

datatype callback = Parse listing | ParseAbs abs_page meta_item

fun run :: "spider \<Rightarrow> callback list \<Rightarrow> action list \<times> out_item list \<times> spider" where
  "run self [] = ([], [], self)"
| "run self (Parse response # cs) =
     (let (a, e, self1) = parse self response;
          (as, items, self2) = run self1 cs
      in (a @ as, items, self2))"
| "run self (ParseAbs response meta # cs) =
     (let (i, self1) = parse_abs self response meta;
          (as, items, self2) = run self1 cs
      in (as, i @ items, self2))"

definition actions :: "action list \<times> out_item list \<times> spider \<Rightarrow> action list" where
  "actions r = fst r"

definition emitted :: "action list \<times> out_item list \<times> spider \<Rightarrow> out_item list" where
  "emitted r = fst (snd r)"

definition final :: "action list \<times> out_item list \<times> spider \<Rightarrow> spider" where
  "final r = snd (snd r)"

text \<open>The requests among the actions.\<close>

fun follows :: "action list \<Rightarrow> meta_item list" where
  "follows [] = []"
| "follows (Follow m # as) = m # follows as"
| "follows (Debug i c t # as) = follows as"

text \<open>A sequence of calls answers requests only: every call of \<^verbatim>\<open>parse_abs\<close> is for a
  request that is pending, dispatched by an earlier call of \<^verbatim>\<open>parse\<close> (or pending at the
  start) and not answered yet.\<close>

fun answers :: "spider \<Rightarrow> meta_item list \<Rightarrow> callback list \<Rightarrow> bool" where
  "answers self pending [] = True"
| "answers self pending (Parse response # cs) =
     (let (a, e, self1) = parse self response in answers self1 (pending @ follows a) cs)"
| "answers self pending (ParseAbs response meta # cs) =
     (meta \<in> set pending
      \<and> answers (snd (parse_abs self response meta)) (remove1 meta pending) cs)"

text \<open>\<^verbatim>\<open>len(self._buffer)\<close>, 0 while the attribute does not exist.\<close>

definition buffered :: "spider \<Rightarrow> nat" where
  "buffered self = (case buffer self of None \<Rightarrow> 0 | Some b \<Rightarrow> length b)"

subsection \<open>The framework\<close>

text \<open>
  The order of the calls is the framework's. The source relies on two things of it
  (comment of line 10, docstring of \<^verbatim>\<open>parse\<close>: the order in which the pages are processed
  is given by the constructor and by \<^verbatim>\<open>CONCURRENT_REQUESTS = 1\<close>): the start URLs are
  requested in the order of \<^verbatim>\<open>start_urls\<close>, one request for each entry of the list, and at
  most \<^verbatim>\<open>CONCURRENT_REQUESTS\<close> requests are in flight at any time. Within these bounds
  the engine is free: it may start the next listing or send a request that \<^verbatim>\<open>parse\<close>
  yielded, whichever waits, and it hands the response of any request in flight to its
  callback. The site answers every request.
\<close>

datatype request = Listing string | Abstract meta_item

record site =
  fetch_listing :: "string \<Rightarrow> listing"
  fetch_abs :: "meta_item \<Rightarrow> abs_page"

record engine =
  spider_at :: spider
  to_start :: "string list"
  scheduled :: "meta_item list"
  in_flight :: "request list"
  visited :: "string list"
  calls :: "callback list"
  items_out :: "out_item list"

datatype move = Start | Send nat | Deliver nat

definition engine_init :: "string option \<Rightarrow> engine" where
  "engine_init env =
     \<lparr>spider_at = spider_init env, to_start = start_urls (spider_init env), scheduled = [],
      in_flight = [], visited = [], calls = [], items_out = []\<rparr>"

definition without :: "nat \<Rightarrow> 'a list \<Rightarrow> 'a list" where
  "without k xs = take k xs @ drop (Suc k) xs"

fun engine_step :: "site \<Rightarrow> engine \<Rightarrow> move \<Rightarrow> engine option" where
  "engine_step w e Start =
     (case to_start e of
        [] \<Rightarrow> None
      | u # us \<Rightarrow>
          if length (in_flight e) < CONCURRENT_REQUESTS
          then Some (e\<lparr>to_start := us, in_flight := in_flight e @ [Listing u]\<rparr>)
          else None)"
| "engine_step w e (Send k) =
     (if k < length (scheduled e) \<and> length (in_flight e) < CONCURRENT_REQUESTS
      then Some (e\<lparr>scheduled := without k (scheduled e),
                   in_flight := in_flight e @ [Abstract (scheduled e ! k)]\<rparr>)
      else None)"
| "engine_step w e (Deliver k) =
     (if k < length (in_flight e)
      then (case in_flight e ! k of
              Listing u \<Rightarrow>
                (let (a, x, self1) = parse (spider_at e) (fetch_listing w u)
                 in Some (e\<lparr>spider_at := self1, in_flight := without k (in_flight e),
                            scheduled := scheduled e @ follows a,
                            visited := visited e @ [u],
                            calls := calls e @ [Parse (fetch_listing w u)]\<rparr>))
            | Abstract m \<Rightarrow>
                (let (i, self1) = parse_abs (spider_at e) (fetch_abs w m) m
                 in Some (e\<lparr>spider_at := self1, in_flight := without k (in_flight e),
                            calls := calls e @ [ParseAbs (fetch_abs w m) m],
                            items_out := items_out e @ i\<rparr>)))
      else None)"

fun engine_run :: "site \<Rightarrow> engine \<Rightarrow> move list \<Rightarrow> engine option" where
  "engine_run w e [] = Some e"
| "engine_run w e (m # ms) =
     (case engine_step w e m of None \<Rightarrow> None | Some e' \<Rightarrow> engine_run w e' ms)"

text \<open>The listing requests among the requests in flight, and the requests for abstract
  pages among them.\<close>

fun listings :: "request list \<Rightarrow> string list" where
  "listings [] = []"
| "listings (Listing u # rs) = u # listings rs"
| "listings (Abstract m # rs) = listings rs"

fun abstracts :: "request list \<Rightarrow> meta_item list" where
  "abstracts [] = []"
| "abstracts (Listing u # rs) = abstracts rs"
| "abstracts (Abstract m # rs) = m # abstracts rs"

text \<open>The order of the specification on the key tuple: category priority ascending, then
  section rank ascending, then identifier descending.\<close>

definition tuple_order :: "item \<Rightarrow> item \<Rightarrow> bool" where
  "tuple_order a b =
     (cat_priority a < cat_priority b
      \<or> (cat_priority a = cat_priority b
         \<and> (section_rank a < section_rank b
            \<or> (section_rank a = section_rank b \<and> id_key b \<le> id_key a))))"

text \<open>The content of the buffer after the append of \<^verbatim>\<open>parse_abs\<close> (line 162).\<close>

definition appended :: "spider \<Rightarrow> abs_page \<Rightarrow> meta_item \<Rightarrow> item list" where
  "appended self response meta =
     (case buffer self of None \<Rightarrow> [] | Some b \<Rightarrow> b) @ [make_item meta (version_of response)]"

subsection \<open>Notions of the specification\<close>

text \<open>The identifiers that the scan of a listing page reaches: those of the entries whose
  link has the shape of an identifier, in the order of the page.\<close>

fun block_ids :: "listing \<Rightarrow> block \<Rightarrow> string list" where
  "block_ids response (H3 texts) = []"
| "block_ids response (DL dts dds) =
     List.map_filter
       (\<lambda>p. case entry_id response (fst p) of
              Inl e \<Rightarrow> None
            | Inr x \<Rightarrow> map_option fst x)
       (zip dts dds)"

definition listed_ids :: "listing \<Rightarrow> string list" where
  "listed_ids response = concat (map (block_ids response) (dlpage response))"

text \<open>What every scan keeps to: it only adds seen identifiers, finitely many; it leaves the
  target categories and the buffer; the requests it yields have identifiers that differ
  from each other, that were not seen before the scan and that are seen after it.\<close>

definition keeps :: "spider \<Rightarrow> scan \<Rightarrow> bool" where
  "keeps self r =
     (seen_ids self \<subseteq> seen_ids (after r)
      \<and> (finite (seen_ids self) \<longrightarrow> finite (seen_ids (after r)))
      \<and> target_categories (after r) = target_categories self
      \<and> buffer (after r) = buffer self
      \<and> distinct (map m_id (follows (yielded r)))
      \<and> set (map m_id (follows (yielded r))) \<inter> seen_ids self = {}
      \<and> set (map m_id (follows (yielded r))) \<subseteq> seen_ids (after r))"

text \<open>The section in force after a sequence of blocks: that of its last heading, and the
  section in force before it if it has no heading.\<close>

fun section_after :: "string \<times> int \<Rightarrow> block list \<Rightarrow> string \<times> int" where
  "section_after cur [] = cur"
| "section_after cur (H3 texts # bs) = section_after (heading_section texts) bs"
| "section_after cur (DL dts dds # bs) = section_after cur bs"

text \<open>A phrase stands in a text as a whole word: no word character before it and none
  after it.\<close>

definition last_char :: "string \<Rightarrow> char option" where
  "last_char s = (if s = [] then None else Some (last s))"

definition first_char :: "string \<Rightarrow> char option" where
  "first_char s = (case s of [] \<Rightarrow> None | c # _ \<Rightarrow> Some c)"

definition whole_word :: "string \<Rightarrow> string \<Rightarrow> bool" where
  "whole_word w h =
     (\<exists>pre post. h = pre @ w @ post \<and> \<not> word_opt (last_char pre) \<and> \<not> word_opt (first_char post))"

text \<open>The section of a heading in the words of the specification: by the phrase that its
  lower-case text contains, singular or plural (the hyphen of \<open>cross-lists\<close> may be left
  out); \<open>new\<close> before \<open>cross\<close> before \<open>repl\<close> where several occur, and \<open>other\<close> where
  none does.\<close>

definition spec_section :: "string \<Rightarrow> string \<times> int" where
  "spec_section h =
     (if whole_word ''new submission'' h \<or> whole_word ''new submissions'' h then (''new'', 0)
      else if whole_word ''crosslist'' h \<or> whole_word ''crosslists'' h
              \<or> whole_word ''cross-list'' h \<or> whole_word ''cross-lists'' h
              \<or> whole_word ''cross submission'' h \<or> whole_word ''cross submissions'' h
           then (''cross'', 1)
      else if whole_word ''replacement'' h \<or> whole_word ''replacements'' h
              \<or> whole_word ''replacement submission'' h
              \<or> whole_word ''replacement submissions'' h
           then (''repl'', 2)
      else (''other'', 3))"

subsection \<open>Example pages\<close>

text \<open>Pages of the shape arXiv serves: links \<^verbatim>\<open>/abs/<id>\<close> relative to the site, the subjects
  of an entry as the text nodes of its \<^verbatim>\<open>list-subjects\<close> element.\<close>

fun occurs_in :: "string \<Rightarrow> string \<Rightarrow> bool" where
  "occurs_in w [] = (w = [])"
| "occurs_in w (c # cs) = (take (length w) (c # cs) = w \<or> occurs_in w cs)"

text \<open>\<^verbatim>\<open>response.urljoin\<close> of a page of \<^verbatim>\<open>https://arxiv.org\<close>, on the links of the examples:
  a path from the root of the site is put behind the site; a link with a scheme of its
  own (\<^verbatim>\<open>mailto:\<close>, \<^verbatim>\<open>http:\<close>) is returned as it is; and a link whose host opens a bracket
  and does not close it raises \<^verbatim>\<open>ValueError\<close> (invalid IPv6 URL).\<close>

definition site_urljoin :: "string \<Rightarrow> error + string" where
  "site_urljoin h =
     (if take 8 h = ''http://['' \<and> CHR '']'' \<notin> set h then Inl ValueError
      else if take 1 h = ''/'' \<and> take 2 h \<noteq> ''//'' then Inr (''https://arxiv.org'' @ h)
      else Inr h)"

text \<open>\<^verbatim>\<open>response.follow\<close>: the URL is joined as above, and the request refuses a URL with
  no \<^verbatim>\<open>://\<close> in it (missing scheme) unless it starts with \<^verbatim>\<open>about:\<close> or \<^verbatim>\<open>data:\<close>.\<close>

definition site_follow :: "string \<Rightarrow> error + string" where
  "site_follow u =
     (case site_urljoin u of
        Inl e \<Rightarrow> Inl e
      | Inr v \<Rightarrow>
          if occurs_in ''://'' v \<or> take 6 v = ''about:'' \<or> take 5 v = ''data:'' then Inr v
          else Inl ValueError)"

definition entry_dt :: "string \<Rightarrow> dt" where
  "entry_dt i = \<lparr>abstract_href = Some (''/abs/'' @ i), abs_href = Some (''/abs/'' @ i)\<rparr>"

definition entry_dd :: "string \<Rightarrow> dd" where
  "entry_dd subjects = \<lparr>list_subjects = [''Subjects:'', '' '', subjects]\<rparr>"

definition no_link_dt :: dt where
  "no_link_dt = \<lparr>abstract_href = None, abs_href = Some []\<rparr>"

definition bad_link_dt :: dt where
  "bad_link_dt = \<lparr>abstract_href = Some ''http://[bad'', abs_href = None\<rparr>"

definition mailto_dt :: "string \<Rightarrow> dt" where
  "mailto_dt i =
     \<lparr>abstract_href = Some (''mailto:a/abs/'' @ i), abs_href = Some (''mailto:a/abs/'' @ i)\<rparr>"

definition listing_page :: "string \<Rightarrow> block list \<Rightarrow> listing" where
  "listing_page cat bs =
     \<lparr>url = list_url cat, urljoin = site_urljoin, follow = site_follow, dlpage = bs\<rparr>"

definition qa_page :: listing where
  "qa_page =
     listing_page ''math.QA''
       [H3 [''New submissions (showing 2 of 2 entries)''],
        DL [entry_dt ''2401.00002'', entry_dt ''2401.00001'']
           [entry_dd ''Quantum Algebra (math.QA); Representation Theory (math.RT)'',
            entry_dd ''Algebraic Geometry (math.AG)'']]"

definition rt_page :: listing where
  "rt_page =
     listing_page ''math.RT''
       [H3 [''New submissions (showing 1 of 2 entries)''],
        DL [entry_dt ''2401.00003'']
           [entry_dd ''Representation Theory (math.RT)''],
        H3 [''Cross submissions (showing 1 of 2 entries)''],
        DL [entry_dt ''2401.00002'']
           [entry_dd ''Quantum Algebra (math.QA); Representation Theory (math.RT)'']]"

definition qa_single :: listing where
  "qa_single =
     listing_page ''math.QA''
       [H3 [''New submissions (showing 1 of 1 entries)''],
        DL [entry_dt ''2401.00002''] [entry_dd ''Quantum Algebra (math.QA)'']]"

definition rt_single :: listing where
  "rt_single =
     listing_page ''math.RT''
       [H3 [''New submissions (showing 1 of 1 entries)''],
        DL [entry_dt ''2401.00003''] [entry_dd ''Representation Theory (math.RT)'']]"

definition stub :: "string \<Rightarrow> string \<Rightarrow> string set \<Rightarrow> int \<Rightarrow> int \<Rightarrow> meta_item" where
  "stub i sec cats p r =
     \<lparr>m_id = i, m_section = sec, m_abs = ''https://arxiv.org/abs/'' @ i,
      m_pdf = ''https://arxiv.org/pdf/'' @ i, m_categories = cats,
      m_cat_priority = p, m_section_rank = r\<rparr>"

definition plain_abs :: abs_page where
  "plain_abs = \<lparr>canonical = None, h1_texts = [''Title:'', ''A note'']\<rparr>"

definition v1_abs :: abs_page where
  "v1_abs =
     \<lparr>canonical = Some ''https://arxiv.org/abs/2401.00001v1'',
      h1_texts = [''Title:'', ''Remarks on v2 periodic families'']\<rparr>"

text \<open>A listing whose first entry has a link that \<^verbatim>\<open>response.urljoin\<close> refuses, and a
  listing whose first entry has a link that \<^verbatim>\<open>response.follow\<close> refuses.\<close>

definition bad_link_page :: listing where
  "bad_link_page =
     listing_page ''math.QA''
       [H3 [''New submissions (showing 2 of 2 entries)''],
        DL [bad_link_dt, entry_dt ''2401.00001'']
           [entry_dd ''Quantum Algebra (math.QA)'', entry_dd ''Quantum Algebra (math.QA)'']]"

definition mailto_page :: listing where
  "mailto_page =
     listing_page ''math.QA''
       [H3 [''New submissions (showing 2 of 2 entries)''],
        DL [mailto_dt ''2401.00002'', entry_dt ''2401.00001'']
           [entry_dd ''Quantum Algebra (math.QA)'', entry_dd ''Quantum Algebra (math.QA)'']]"

text \<open>A site with the two listings above; every abstract page is the plain one.\<close>

definition two_listings :: site where
  "two_listings =
     \<lparr>fetch_listing =
        (\<lambda>u. if u = list_url ''math.QA'' then qa_page
             else if u = list_url ''math.RT'' then rt_page
             else listing_page (source_cat u) []),
      fetch_abs = (\<lambda>m. plain_abs)\<rparr>"

text \<open>Runs: a listing with a skipped entry and its one request; two categories, each
  listing followed by its one request; and a further listing with its request.\<close>

definition filtered_run :: "callback list" where
  "filtered_run =
     [Parse qa_page,
      ParseAbs plain_abs (stub ''2401.00002'' ''new'' {''math.QA'', ''math.RT''} 0 0)]"

definition two_category_run :: "callback list" where
  "two_category_run =
     [Parse qa_single, ParseAbs plain_abs (stub ''2401.00002'' ''new'' {''math.QA''} 0 0),
      Parse rt_single, ParseAbs plain_abs (stub ''2401.00003'' ''new'' {''math.RT''} 1 0)]"

definition later_calls :: "callback list" where
  "later_calls =
     [Parse (listing_page ''math.RT''
        [DL [entry_dt ''2401.00004''] [entry_dd ''Representation Theory (math.RT)'']]),
      ParseAbs plain_abs (stub ''2401.00004'' ''other'' {''math.RT''} 1 3)]"

text \<open>Schedules of the engine on two listings with one request each: both listings first
  and then the abstract pages; each listing followed by its abstract page; and the two
  listings alone.\<close>

definition listings_first :: "move list" where
  "listings_first = [Start, Deliver 0, Start, Deliver 0, Send 0, Deliver 0, Send 0, Deliver 0]"

definition listing_by_listing :: "move list" where
  "listing_by_listing = [Start, Deliver 0, Send 0, Deliver 0, Start, Deliver 0, Send 0, Deliver 0]"

definition listings_only :: "move list" where
  "listings_only = [Start, Deliver 0, Start, Deliver 0]"

section \<open>Properties\<close>

subsection \<open>The priority of a category\<close>

text \<open>
  Claim C9. The priority of a category is a total function of the code: a code of the
  override table has the rank the table gives it, which is below the default; every
  other string has the one default rank 99; and \<^verbatim>\<open>math.QA\<close> comes strictly before
  \<^verbatim>\<open>math.RT\<close>.
\<close>

theorem priority_override_or_default:
  "(\<forall>c r. CAT_PRIORITY c = Some r \<longrightarrow> priority c = r \<and> r < 99)
   \<and> (\<forall>c. CAT_PRIORITY c = None \<longrightarrow> priority c = 99)
   \<and> priority ''math.QA'' = 0 \<and> priority ''math.RT'' = 1
   \<and> priority ''math.QA'' < priority ''math.RT''"
  by (auto simp: priority_def CAT_PRIORITY_def split: if_splits)

theorem priority_override_or_default_witness:
  "CAT_PRIORITY ''math.RT'' = Some 1 \<and> priority ''math.RT'' = 1 \<and> (1::int) < 99
   \<and> CAT_PRIORITY ''cs.CV'' = None \<and> priority ''cs.CV'' = 99"
proof -
  have a: "CAT_PRIORITY ''math.RT'' = Some 1"
    by (simp add: CAT_PRIORITY_def)
  have b: "CAT_PRIORITY ''cs.CV'' = None"
    by (simp add: CAT_PRIORITY_def)
  from priority_override_or_default a b show ?thesis
    by blast
qed

subsection \<open>The order of a release\<close>

text \<open>A stable sort by a key refines any order the list already has: elements of equal
  key keep their relative position.\<close>

lemma insort_key_refines:
  fixes f :: "'a \<Rightarrow> 'k::linorder"
  assumes "sorted_wrt (\<lambda>a b. f a < f b \<or> (f a = f b \<and> R a b)) ys"
    and "\<forall>y\<in>set ys. R x y"
  shows "sorted_wrt (\<lambda>a b. f a < f b \<or> (f a = f b \<and> R a b)) (insort_key f x ys)"
  using assms
proof (induction ys)
  case Nil
  then show ?case by simp
next
  case (Cons y ys)
  show ?case
  proof (cases "f x \<le> f y")
    case True
    have "\<forall>z\<in>set (y # ys). f x < f z \<or> (f x = f z \<and> R x z)"
    proof
      fix z assume z: "z \<in> set (y # ys)"
      have "f y \<le> f z" using Cons.prems(1) z by auto
      with True have "f x \<le> f z" by simp
      moreover have "R x z" using Cons.prems(2) z by blast
      ultimately show "f x < f z \<or> (f x = f z \<and> R x z)" by auto
    qed
    with True Cons.prems(1) show ?thesis by simp
  next
    case False
    have ih: "sorted_wrt (\<lambda>a b. f a < f b \<or> (f a = f b \<and> R a b)) (insort_key f x ys)"
      using Cons.IH Cons.prems by simp
    from False Cons.prems(1) ih show ?thesis
      by (auto simp: set_insort_key)
  qed
qed

lemma sort_key_refines:
  fixes f :: "'a \<Rightarrow> 'k::linorder"
  shows "sorted_wrt R xs \<Longrightarrow>
    sorted_wrt (\<lambda>a b. f a < f b \<or> (f a = f b \<and> R a b)) (sort_key f xs)"
proof (induction xs)
  case Nil
  then show ?case by simp
next
  case (Cons x xs)
  then show ?case
    by (simp add: insort_key_refines)
qed

lemma sort_key_reverse_descending:
  fixes f :: "'a \<Rightarrow> 'k::linorder"
  shows "sorted_wrt (\<lambda>a b. f b \<le> f a) (sort_key_reverse f xs)"
proof -
  have "sorted (map f (sort_key f (rev xs)))" by simp
  then have "sorted_wrt (\<lambda>a b. f a \<le> f b) (sort_key f (rev xs))"
    by (simp add: sorted_map)
  then show ?thesis
    by (simp add: sort_key_reverse_def sorted_wrt_rev)
qed

lemma sort_key_reverse_stable:
  fixes f :: "'a \<Rightarrow> 'k::linorder"
  shows "filter (\<lambda>y. f y = k) (sort_key_reverse f xs) = filter (\<lambda>y. f y = k) xs"
  by (simp add: sort_key_reverse_def sort_key_stable flip: rev_filter)

lemma mset_sort_key_reverse: "mset (sort_key_reverse f xs) = mset xs"
  by (simp add: sort_key_reverse_def)

lemma mset_sort_items: "mset (sort_items xs) = mset xs"
  by (simp add: sort_items_def mset_sort_key_reverse)

lemma sort_items_tuple_order: "sorted_wrt tuple_order (sort_items xs)"
proof -
  let ?R1 = "\<lambda>a b. id_key b \<le> id_key a"
  let ?R2 = "\<lambda>a b. section_rank a < section_rank b
                \<or> (section_rank a = section_rank b \<and> ?R1 a b)"
  let ?R3 = "\<lambda>a b. cat_priority a < cat_priority b
                \<or> (cat_priority a = cat_priority b \<and> ?R2 a b)"
  have 1: "sorted_wrt ?R1 (sort_key_reverse id_key xs)"
    by (rule sort_key_reverse_descending)
  have 2: "sorted_wrt ?R2 (sort_key section_rank (sort_key_reverse id_key xs))"
    by (rule sort_key_refines [OF 1])
  have 3: "sorted_wrt ?R3
             (sort_key cat_priority (sort_key section_rank (sort_key_reverse id_key xs)))"
    by (rule sort_key_refines [OF 2])
  have "tuple_order = ?R3"
    by (intro ext) (simp add: tuple_order_def)
  with 3 show ?thesis by (simp add: sort_items_def)
qed

lemma parse_abs_cases:
  "parse_abs self response meta =
     (if card (seen_ids self) \<le> length (appended self response meta)
      then (map pop_keys (sort_items (appended self response meta)), self\<lparr>buffer := Some []\<rparr>)
      else ([], self\<lparr>buffer := Some (appended self response meta)\<rparr>))"
  by (simp add: parse_abs_def appended_def Let_def)

lemma run_append:
  "run self (cs1 @ cs2) =
     (actions (run self cs1) @ actions (run (final (run self cs1)) cs2),
      emitted (run self cs1) @ emitted (run (final (run self cs1)) cs2),
      final (run (final (run self cs1)) cs2))"
proof (induction cs1 arbitrary: self)
  case Nil
  show ?case by (simp add: actions_def emitted_def final_def)
next
  case (Cons c cs1)
  show ?case
    by (cases c) (simp_all add: Cons.IH actions_def emitted_def final_def split: prod.splits)
qed

text \<open>
  Claim C1. What a call of \<^verbatim>\<open>parse_abs\<close> yields is nothing, or the whole buffer, keys
  popped, in the order of the key tuple (category priority ascending, section rank
  ascending, identifier descending). That order is the result of the three sorts of the
  source, by identifier descending, then by section rank, then by category priority,
  each of them stable. The items of a run are the items of its calls one after the other:
  what a later call yields comes after everything yielded before.
\<close>

theorem release_in_tuple_order:
  "(fst (parse_abs self response meta) = []
      \<or> fst (parse_abs self response meta)
          = map pop_keys (sort_items (appended self response meta)))
   \<and> sorted_wrt tuple_order (sort_items buf)
   \<and> mset (sort_items buf) = mset buf
   \<and> sort_items buf
       = sort_key cat_priority (sort_key section_rank (sort_key_reverse id_key buf))
   \<and> sorted_wrt (\<lambda>a b. id_key b \<le> id_key a) (sort_key_reverse id_key buf)
   \<and> filter (\<lambda>y. id_key y = k1) (sort_key_reverse id_key buf) = filter (\<lambda>y. id_key y = k1) buf
   \<and> filter (\<lambda>y. section_rank y = k2) (sort_key section_rank buf)
       = filter (\<lambda>y. section_rank y = k2) buf
   \<and> filter (\<lambda>y. cat_priority y = k3) (sort_key cat_priority buf)
       = filter (\<lambda>y. cat_priority y = k3) buf
   \<and> emitted (run self (cs1 @ cs2))
       = emitted (run self cs1) @ emitted (run (final (run self cs1)) cs2)"
proof -
  have "emitted (run self (cs1 @ cs2))
          = emitted (run self cs1) @ emitted (run (final (run self cs1)) cs2)"
    by (subst run_append) (simp add: emitted_def)
  moreover have "fst (parse_abs self response meta) = []
      \<or> fst (parse_abs self response meta)
          = map pop_keys (sort_items (appended self response meta))"
    by (simp add: parse_abs_cases)
  moreover have "sort_items buf
       = sort_key cat_priority (sort_key section_rank (sort_key_reverse id_key buf))"
    by (simp add: sort_items_def)
  ultimately show ?thesis
    using sort_items_tuple_order [of buf] mset_sort_items [of buf]
      sort_key_reverse_descending [of id_key buf] sort_key_reverse_stable [of id_key k1 buf]
      sort_key_stable [of section_rank k2 buf] sort_key_stable [of cat_priority k3 buf]
    by blast
qed

subsection \<open>Searching a pattern\<close>

lemma search_from_found:
  "(search_from p c s \<noteq> None) =
     (\<exists>pre post. s = pre @ post \<and>
        rx_match p \<lparr>prev = (if pre = [] then c else Some (last pre)), rest = post,
                    opened = None, captured = None\<rparr> \<noteq> None)"
proof (induction s arbitrary: c)
  case Nil
  then show ?case by simp
next
  case (Cons x xs)
  show ?case
  proof (cases "rx_match p \<lparr>prev = c, rest = x # xs, opened = None, captured = None\<rparr>")
    case (Some r)
    then have "\<exists>pre post. x # xs = pre @ post \<and>
        rx_match p \<lparr>prev = (if pre = [] then c else Some (last pre)), rest = post,
                    opened = None, captured = None\<rparr> \<noteq> None"
      by (intro exI [of _ "[]"] exI [of _ "x # xs"]) simp
    with Some show ?thesis by simp
  next
    case None
    have "(\<exists>pre post. x # xs = pre @ post \<and>
        rx_match p \<lparr>prev = (if pre = [] then c else Some (last pre)), rest = post,
                    opened = None, captured = None\<rparr> \<noteq> None)
      = (\<exists>pre post. xs = pre @ post \<and>
        rx_match p \<lparr>prev = (if pre = [] then Some x else Some (last pre)), rest = post,
                    opened = None, captured = None\<rparr> \<noteq> None)" (is "?L = ?R")
    proof
      assume ?L
      then obtain pre post where pp: "x # xs = pre @ post"
        and m: "rx_match p \<lparr>prev = (if pre = [] then c else Some (last pre)), rest = post,
                    opened = None, captured = None\<rparr> \<noteq> None" by blast
      from m None pp have "pre \<noteq> []" by (cases pre) auto
      then obtain pre' where pre: "pre = x # pre'" using pp by (cases pre) auto
      with pp have xs: "xs = pre' @ post" by simp
      have "(if pre = [] then c else Some (last pre)) = (if pre' = [] then Some x else Some (last pre'))"
        using pre by simp
      with m have "rx_match p \<lparr>prev = (if pre' = [] then Some x else Some (last pre')), rest = post,
                    opened = None, captured = None\<rparr> \<noteq> None" by simp
      with xs show ?R by blast
    next
      assume ?R
      then obtain pre post where pp: "xs = pre @ post"
        and m: "rx_match p \<lparr>prev = (if pre = [] then Some x else Some (last pre)), rest = post,
                    opened = None, captured = None\<rparr> \<noteq> None" by blast
      have xs: "x # xs = (x # pre) @ post" using pp by simp
      have "(if x # pre = [] then c else Some (last (x # pre))) = (if pre = [] then Some x else Some (last pre))"
        by simp
      with m have "rx_match p \<lparr>prev = (if x # pre = [] then c else Some (last (x # pre))), rest = post,
                    opened = None, captured = None\<rparr> \<noteq> None" by simp
      with xs show ?L by blast
    qed
    with None Cons.IH [of "Some x"] show ?thesis by simp
  qed
qed

lemma search_found:
  "(search p s \<noteq> None) =
     (\<exists>pre post. s = pre @ post \<and>
        rx_match p \<lparr>prev = last_char pre, rest = post, opened = None, captured = None\<rparr> \<noteq> None)"
  by (simp only: search_def search_from_found last_char_def)

lemma take_eq_iff: "(take (length w) s = w) = (\<exists>r. s = w @ r)"
  by (metis append_eq_conv_conj append_take_drop_id)

lemma advance_append:
  "w \<noteq> [] \<Longrightarrow> advance (length w) \<lparr>prev = c, rest = w @ r, opened = a, captured = b\<rparr>
     = \<lparr>prev = Some (last w), rest = r, opened = a, captured = b\<rparr>"
  by (simp add: advance_def nth_append last_conv_nth)


lemma first_char_append: "w \<noteq> [] \<Longrightarrow> first_char (w @ r) = Some (hd w)"
  by (cases w) (simp_all add: first_char_def)

lemma match_Nil: "(rx_match [] m \<noteq> None) = True"
  by simp

lemma match_Lit:
  "w \<noteq> [] \<Longrightarrow>
   (rx_match (Lit w # rs) \<lparr>prev = c, rest = s, opened = a, captured = b\<rparr> \<noteq> None)
     = (\<exists>r. s = w @ r \<and>
          rx_match rs \<lparr>prev = Some (last w), rest = r, opened = a, captured = b\<rparr> \<noteq> None)"
  by (auto simp: take_eq_iff advance_append)

lemma match_Opt:
  "w \<noteq> [] \<Longrightarrow>
   (rx_match (Opt w # rs) \<lparr>prev = c, rest = s, opened = a, captured = b\<rparr> \<noteq> None)
     = ((\<exists>r. s = w @ r \<and>
          rx_match rs \<lparr>prev = Some (last w), rest = r, opened = a, captured = b\<rparr> \<noteq> None)
        \<or> rx_match rs \<lparr>prev = c, rest = s, opened = a, captured = b\<rparr> \<noteq> None)"
  by (auto simp: take_eq_iff advance_append split: option.splits)

lemma match_WordB:
  "(rx_match (WordB # rs) \<lparr>prev = c, rest = s, opened = a, captured = b\<rparr> \<noteq> None)
     = (word_opt c \<noteq> word_opt (first_char s)
        \<and> rx_match rs \<lparr>prev = c, rest = s, opened = a, captured = b\<rparr> \<noteq> None)"
  by (simp add: next_char_def first_char_def)

lemma word_opt_Some: "word_opt (Some x) = is_word x"
  by (simp add: word_opt_def)

text \<open>The patterns of the headings: \<^verbatim>\<open>\b w t? \b\<close> and \<^verbatim>\<open>\b w1 t1? w2 t2? \b\<close>.\<close>

lemma word_pattern_match:
  assumes w: "w \<noteq> []" "is_word (hd w)" "is_word (last w)"
    and t: "t \<noteq> []" "is_word (last t)"
  shows "(rx_match [WordB, Lit w, Opt t, WordB] \<lparr>prev = c, rest = s, opened = a, captured = b\<rparr> \<noteq> None)
     = (\<not> word_opt c \<and> (\<exists>r. s = w @ r \<and> ((\<exists>r'. r = t @ r' \<and> \<not> word_opt (first_char r')) \<or> \<not> word_opt (first_char r))))"
  unfolding match_WordB match_Lit [OF w(1)] match_Opt [OF t(1)] match_Nil
  using w t by (auto simp: first_char_append word_opt_Some)

lemma word_pattern_search:
  assumes w: "w \<noteq> []" "is_word (hd w)" "is_word (last w)"
    and t: "t \<noteq> []" "is_word (last t)"
  shows "(search [WordB, Lit w, Opt t, WordB] h \<noteq> None) = (whole_word w h \<or> whole_word (w @ t) h)"
  unfolding search_found word_pattern_match [OF assms] whole_word_def
  by (metis append.assoc)

lemma word_pattern2_match:
  assumes w: "w1 \<noteq> []" "is_word (hd w1)" "w2 \<noteq> []" "is_word (last w2)"
    and t: "t1 \<noteq> []" "t2 \<noteq> []" "is_word (last t2)"
  shows "(rx_match [WordB, Lit w1, Opt t1, Lit w2, Opt t2, WordB] \<lparr>prev = c, rest = s, opened = a, captured = b\<rparr> \<noteq> None)
     = (\<not> word_opt c \<and> 
        ((\<exists>r. s = w1 @ t1 @ w2 @ t2 @ r \<and> \<not> word_opt (first_char r))
         \<or> (\<exists>r. s = w1 @ t1 @ w2 @ r \<and> \<not> word_opt (first_char r))
         \<or> (\<exists>r. s = w1 @ w2 @ t2 @ r \<and> \<not> word_opt (first_char r))
         \<or> (\<exists>r. s = w1 @ w2 @ r \<and> \<not> word_opt (first_char r))))"
  unfolding match_WordB match_Lit [OF w(1)] match_Lit [OF w(3)] match_Opt [OF t(1)] match_Opt [OF t(2)] match_Nil
  using w t by (auto simp: first_char_append word_opt_Some)

lemma word_pattern2_search:
  assumes w: "w1 \<noteq> []" "is_word (hd w1)" "w2 \<noteq> []" "is_word (last w2)"
    and t: "t1 \<noteq> []" "t2 \<noteq> []" "is_word (last t2)"
  shows "(search [WordB, Lit w1, Opt t1, Lit w2, Opt t2, WordB] h \<noteq> None) 
    = (whole_word (w1 @ w2) h \<or> whole_word (w1 @ w2 @ t2) h \<or> whole_word (w1 @ t1 @ w2) h \<or> whole_word (w1 @ t1 @ w2 @ t2) h)"
  unfolding search_found word_pattern2_match [OF assms] whole_word_def
  by (simp only: append.assoc) blast


subsection \<open>The section of a heading\<close>

lemma is_word_letters:
  "is_word CHR ''n''" "is_word CHR ''s''" "is_word CHR ''c''" "is_word CHR ''t''" "is_word CHR ''r''"
  by (simp_all add: is_word_def code_def)

lemma heading_section_spec:
  "heading_section texts = spec_section (lower (strip (concat texts)))"
proof -
  have new: "\<And>h. (search rx_new h \<noteq> None)
      = (whole_word ''new submission'' h \<or> whole_word ''new submissions'' h)"
    unfolding rx_new_def
    by (subst word_pattern_search) (simp_all add: is_word_letters)
  have cs: "\<And>h. (search rx_cross_submissions h \<noteq> None)
      = (whole_word ''cross submission'' h \<or> whole_word ''cross submissions'' h)"
    unfolding rx_cross_submissions_def
    by (subst word_pattern_search) (simp_all add: is_word_letters)
  have cl: "\<And>h. (search rx_cross_lists h \<noteq> None)
      = (whole_word ''crosslist'' h \<or> whole_word ''crosslists'' h
         \<or> whole_word ''cross-list'' h \<or> whole_word ''cross-lists'' h)"
    unfolding rx_cross_lists_def
    by (subst word_pattern2_search) (simp_all add: is_word_letters)
  have r: "\<And>h. (search rx_replacements h \<noteq> None)
      = (whole_word ''replacement'' h \<or> whole_word ''replacements'' h)"
    unfolding rx_replacements_def
    by (subst word_pattern_search) (simp_all add: is_word_letters)
  have rs: "\<And>h. (search rx_replacement_submissions h \<noteq> None)
      = (whole_word ''replacement submission'' h \<or> whole_word ''replacement submissions'' h)"
    unfolding rx_replacement_submissions_def
    by (subst word_pattern_search) (simp_all add: is_word_letters)
  show ?thesis
    unfolding heading_section_def spec_section_def Let_def new cs cl r rs
    by (intro if_cong refl) blast+
qed

subsection \<open>What the callbacks change\<close>

lemma follows_append: "follows (a @ b) = follows a @ follows b"
  by (induction a rule: follows.induct) simp_all

lemma and_then_None: "and_then (a, None, s) f = (a @ yielded (f s), raised (f s), after (f s))"
  by (simp add: and_then_def yielded_def raised_def after_def split: prod.splits)

lemma and_then_Some: "and_then (a, Some e, s) f = (a, Some e, s)"
  by (simp add: and_then_def)

lemma and_then_cases:
  "and_then r f =
     (if raised r = None
      then (yielded r @ yielded (f (after r)), raised (f (after r)), after (f (after r)))
      else r)"
  by (cases r) (auto simp: and_then_def yielded_def raised_def after_def split: prod.splits option.splits)

lemma and_then_unit: "and_then ([], None, s) f = f s"
  by (simp add: and_then_None yielded_def raised_def after_def)

lemma and_then_assoc:
  "and_then (and_then r f) g = and_then r (\<lambda>s. and_then (f s) g)"
proof -
  obtain a e s where r: "r = (a, e, s)" by (cases r)
  show ?thesis
  proof (cases e)
    case (Some x)
    with r show ?thesis by (simp add: and_then_Some)
  next
    case None
    obtain a' e' s' where q: "f s = (a', e', s')" by (cases "f s")
    show ?thesis
    proof (cases e')
      case (Some x)
      with r None q show ?thesis
        by (simp add: and_then_def)
    next
      case n: None
      with r None q show ?thesis
        by (simp add: and_then_def split: prod.splits)
    qed
  qed
qed

lemma parse_paper_raise:
  "entry_id response (fst p) = Inl e \<Longrightarrow>
   parse_paper response cp cur self p = ([], Some e, self)"
  by (simp add: parse_paper_def)

lemma parse_paper_no_id:
  "entry_id response (fst p) = Inr None \<Longrightarrow>
   parse_paper response cp cur self p = ([], None, self)"
  by (simp add: parse_paper_def)

lemma parse_paper_seen:
  "entry_id response (fst p) = Inr (Some (i, u)) \<Longrightarrow> i \<in> seen_ids self \<Longrightarrow>
   parse_paper response cp cur self p = ([], None, self)"
  by (simp add: parse_paper_def)

lemma parse_paper_new:
  "entry_id response (fst p) = Inr (Some (i, u)) \<Longrightarrow> i \<notin> seen_ids self \<Longrightarrow>
   parse_paper response cp cur self p =
     (if paper_categories (snd p) \<inter> target_categories self \<noteq> {} \<or> subjects_text (snd p) = []
      then (case follow response u of
              Inl e \<Rightarrow> ([], Some e, self\<lparr>seen_ids := insert i (seen_ids self)\<rparr>)
            | Inr v \<Rightarrow>
                ([Follow \<lparr>m_id = i, m_section = fst cur, m_abs = u,
                          m_pdf = replace ''/abs/'' ''/pdf/'' u,
                          m_categories =
                            (if subjects_text (snd p) \<noteq> [] then paper_categories (snd p)
                             else {}),
                          m_cat_priority = cp, m_section_rank = snd cur\<rparr>],
                 None, self\<lparr>seen_ids := insert i (seen_ids self)\<rparr>))
      else ([Debug i (paper_categories (snd p)) (target_categories self)], None,
            self\<lparr>seen_ids := insert i (seen_ids self)\<rparr>))"
  by (simp add: parse_paper_def Let_def)

lemma entry_id_cases:
  obtains (raise) e where "entry_id response d = Inl e"
    | (none) "entry_id response d = Inr None"
    | (some) i u where "entry_id response d = Inr (Some (i, u))"
proof (cases "entry_id response d")
  case (Inl e)
  then show ?thesis by (rule raise)
next
  case (Inr x)
  then show ?thesis
    by (cases x) (auto intro: none some)
qed

lemma distinct_ids_append:
  assumes "distinct (map f xs)" "distinct (map f ys)"
    and "set (map f xs) \<subseteq> S" "set (map f ys) \<inter> S = {}"
  shows "distinct (map f (xs @ ys))"
proof -
  have "set (map f xs) \<inter> set (map f ys) = {}"
    using assms(3,4) by blast
  with assms(1,2) show ?thesis
    by (simp only: map_append distinct_append simp_thms)
qed

lemma keeps_unit: "keeps self ([], None, self)"
  by (simp add: keeps_def yielded_def after_def)

lemma keeps_and_then:
  assumes "keeps self r" and "keeps (after r) (f (after r))"
  shows "keeps self (and_then r f)"
proof (cases "raised r")
  case (Some e)
  with assms(1) show ?thesis by (simp add: and_then_cases)
next
  case None
  let ?q = "f (after r)"
  have r: "and_then r f = (yielded r @ yielded ?q, raised ?q, after ?q)"
    using None by (simp add: and_then_cases)
  have d: "distinct (map m_id (follows (yielded r) @ follows (yielded ?q)))"
    using assms
    by (intro distinct_ids_append [where S = "seen_ids (after r)"]) (simp_all add: keeps_def)
  have i: "set (map m_id (follows (yielded r) @ follows (yielded ?q))) \<inter> seen_ids self = {}"
    using assms by (auto simp: keeps_def)
  have s: "set (map m_id (follows (yielded r) @ follows (yielded ?q))) \<subseteq> seen_ids (after ?q)"
    using assms by (auto simp: keeps_def)
  have o: "seen_ids self \<subseteq> seen_ids (after ?q)"
    "finite (seen_ids self) \<longrightarrow> finite (seen_ids (after ?q))"
    "target_categories (after ?q) = target_categories self"
    "buffer (after ?q) = buffer self"
    using assms by (auto simp: keeps_def)
  show ?thesis
    unfolding r keeps_def using d i s o
    by (simp add: yielded_def after_def follows_append)
qed

lemma keeps_parse_paper: "keeps self (parse_paper response cp cur self p)"
proof (cases rule: entry_id_cases [of response "fst p"])
  case (raise e)
  then show ?thesis
    by (simp add: parse_paper_raise keeps_def yielded_def after_def)
next
  case none
  then show ?thesis
    by (simp add: parse_paper_no_id keeps_unit)
next
  case (some i u)
  show ?thesis
  proof (cases "i \<in> seen_ids self")
    case True
    with some show ?thesis by (simp add: parse_paper_seen keeps_unit)
  next
    case False
    with some show ?thesis
      by (auto simp: parse_paper_new keeps_def yielded_def after_def split: sum.splits)
  qed
qed

lemma keeps_parse_papers: "keeps self (parse_papers response cp cur self ps)"
proof (induction ps arbitrary: self)
  case Nil
  show ?case by (simp add: keeps_unit)
next
  case (Cons p ps)
  show ?case
    by (simp add: keeps_and_then keeps_parse_paper Cons.IH)
qed

lemma keeps_parse_blocks: "keeps self (parse_blocks response cp cur self bs)"
proof (induction bs arbitrary: self cur)
  case Nil
  show ?case by (simp add: keeps_unit)
next
  case (Cons b bs)
  show ?case
    by (cases b) (simp_all add: keeps_and_then keeps_parse_papers Cons.IH)
qed

lemma keeps_parse: "keeps self (parse self response)"
  by (simp add: parse_def keeps_parse_blocks)

text \<open>The requests of a list block carry the section in force and the priority of the
  page.\<close>

lemma parse_paper_carries:
  "\<forall>m\<in>set (follows (yielded (parse_paper response cp cur self p))).
     m_cat_priority m = cp \<and> m_section m = fst cur \<and> m_section_rank m = snd cur"
proof (cases rule: entry_id_cases [of response "fst p"])
  case (raise e)
  then show ?thesis by (simp add: parse_paper_raise yielded_def)
next
  case none
  then show ?thesis by (simp add: parse_paper_no_id yielded_def)
next
  case (some i u)
  show ?thesis
  proof (cases "i \<in> seen_ids self")
    case True
    with some show ?thesis by (simp add: parse_paper_seen yielded_def)
  next
    case False
    with some show ?thesis
      by (auto simp: parse_paper_new yielded_def split: sum.splits)
  qed
qed

lemma parse_papers_carries:
  "\<forall>m\<in>set (follows (yielded (parse_papers response cp cur self ps))).
     m_cat_priority m = cp \<and> m_section m = fst cur \<and> m_section_rank m = snd cur"
proof (induction ps arbitrary: self)
  case Nil
  show ?case by (simp add: yielded_def)
next
  case (Cons p ps)
  show ?case
    using parse_paper_carries [of response cp cur self p]
      Cons.IH [of "after (parse_paper response cp cur self p)"]
    by (auto simp: and_then_cases yielded_def follows_append)
qed

lemma parse_blocks_carries:
  "\<forall>m\<in>set (follows (yielded (parse_blocks response cp cur self bs))). m_cat_priority m = cp"
proof (induction bs arbitrary: self cur)
  case Nil
  show ?case by (simp add: yielded_def)
next
  case (Cons b bs)
  show ?case
  proof (cases b)
    case (H3 texts)
    with Cons.IH show ?thesis by simp
  next
    case (DL dts dds)
    show ?thesis
      using parse_papers_carries [of response cp cur self "zip dts dds"]
        Cons.IH [of cur "after (parse_papers response cp cur self (zip dts dds))"]
      by (auto simp: DL and_then_cases yielded_def follows_append)
  qed
qed

lemma run_Parse:
  "run self (Parse response # cs) =
     (yielded (parse self response) @ actions (run (after (parse self response)) cs),
      emitted (run (after (parse self response)) cs),
      final (run (after (parse self response)) cs))"
  by (simp add: yielded_def after_def actions_def emitted_def final_def split: prod.splits)

lemma run_ParseAbs:
  "run self (ParseAbs response meta # cs) =
     (actions (run (snd (parse_abs self response meta)) cs),
      fst (parse_abs self response meta) @ emitted (run (snd (parse_abs self response meta)) cs),
      final (run (snd (parse_abs self response meta)) cs))"
  by (simp add: actions_def emitted_def final_def split: prod.splits)

lemma parse_abs_effect:
  "seen_ids (snd (parse_abs self response meta)) = seen_ids self
   \<and> target_categories (snd (parse_abs self response meta)) = target_categories self"
  by (simp add: parse_abs_cases)

lemma run_effect:
  "seen_ids self \<subseteq> seen_ids (final (run self cs))
    \<and> target_categories (final (run self cs)) = target_categories self
    \<and> distinct (map m_id (follows (actions (run self cs))))
    \<and> set (map m_id (follows (actions (run self cs)))) \<inter> seen_ids self = {}
    \<and> set (map m_id (follows (actions (run self cs)))) \<subseteq> seen_ids (final (run self cs))"
proof (induction cs arbitrary: self)
  case Nil
  show ?case by (simp add: final_def actions_def)
next
  case (Cons c cs)
  show ?case
  proof (cases c)
    case (Parse response)
    let ?r = "parse self response"
    let ?q = "run (after ?r) cs"
    have k: "keeps self ?r" by (rule keeps_parse)
    note ih = Cons.IH [of "after ?r"]
    have r: "run self (c # cs) = (yielded ?r @ actions ?q, emitted ?q, final ?q)"
      by (simp add: Parse yielded_def after_def actions_def emitted_def final_def
          split: prod.splits)
    have d: "distinct (map m_id (follows (yielded ?r) @ follows (actions ?q)))"
      using k ih
      by (intro distinct_ids_append [where S = "seen_ids (after ?r)"]) (simp_all add: keeps_def)
    have i: "set (map m_id (follows (yielded ?r) @ follows (actions ?q))) \<inter> seen_ids self = {}"
      using k ih by (auto simp: keeps_def)
    have s: "set (map m_id (follows (yielded ?r) @ follows (actions ?q))) \<subseteq> seen_ids (final ?q)"
      using k ih by (auto simp: keeps_def)
    have o: "seen_ids self \<subseteq> seen_ids (final ?q)"
      "target_categories (final ?q) = target_categories self"
      using k ih by (auto simp: keeps_def)
    show ?thesis
      unfolding r using d i s o
      by (simp add: actions_def final_def follows_append)
  next
    case (ParseAbs response meta)
    let ?s = "snd (parse_abs self response meta)"
    let ?q = "run ?s cs"
    have r: "actions (run self (c # cs)) = actions ?q" "final (run self (c # cs)) = final ?q"
      by (simp_all add: ParseAbs actions_def final_def split: prod.splits)
    from Cons.IH [of ?s] parse_abs_effect [of self response meta]
    show ?thesis unfolding r by simp
  qed
qed

lemma run_suppresses:
  "i \<in> seen_ids self \<Longrightarrow> i \<notin> set (map m_id (follows (actions (run self cs))))"
  using run_effect [of self cs] by blast

lemma section_after_append:
  "section_after cur (pre @ post) = section_after (section_after cur pre) post"
  by (induction cur pre rule: section_after.induct) simp_all

lemma parse_papers_append:
  "parse_papers response cp cur self (ps1 @ ps2) =
     and_then (parse_papers response cp cur self ps1)
       (\<lambda>s. parse_papers response cp cur s ps2)"
  by (induction ps1 arbitrary: self) (simp_all add: and_then_unit and_then_assoc)

lemma parse_blocks_append:
  "parse_blocks response cp cur self (pre @ post) =
     and_then (parse_blocks response cp cur self pre)
       (\<lambda>s. parse_blocks response cp (section_after cur pre) s post)"
proof (induction pre arbitrary: self cur)
  case Nil
  show ?case by (simp add: and_then_unit)
next
  case (Cons b pre)
  show ?case
    by (cases b) (simp_all add: Cons.IH and_then_assoc)
qed

lemma parse_papers_skip:
  "entry_id response (fst p) = Inr None \<Longrightarrow>
   parse_papers response cp cur self (ps1 @ p # ps2)
     = parse_papers response cp cur self (ps1 @ ps2)"
  by (simp add: parse_papers_append parse_paper_no_id and_then_unit)

subsection \<open>The release threshold\<close>

text \<open>Once the identifiers seen are more than the records buffered and the requests
  pending together, no call yields anything any more: \<^verbatim>\<open>parse\<close> adds at least as many
  identifiers as requests, and \<^verbatim>\<open>parse_abs\<close> moves one pending request into the buffer.\<close>

lemma keeps_counts:
  assumes "keeps self r" and "finite (seen_ids self)"
  shows "finite (seen_ids (after r))"
    and "card (seen_ids self) + length (follows (yielded r)) \<le> card (seen_ids (after r))"
    and "buffer (after r) = buffer self"
proof -
  show f: "finite (seen_ids (after r))"
    using assms by (simp add: keeps_def)
  let ?ids = "set (map m_id (follows (yielded r)))"
  have "card ?ids = length (follows (yielded r))"
    using assms(1) distinct_card [of "map m_id (follows (yielded r))"] by (simp add: keeps_def)
  moreover have "card (seen_ids self \<union> ?ids) = card (seen_ids self) + card ?ids"
    using assms by (intro card_Un_disjoint) (auto simp: keeps_def)
  moreover have "card (seen_ids self \<union> ?ids) \<le> card (seen_ids (after r))"
    using assms(1) f by (intro card_mono) (auto simp: keeps_def)
  ultimately show "card (seen_ids self) + length (follows (yielded r)) \<le> card (seen_ids (after r))"
    by simp
  show "buffer (after r) = buffer self"
    using assms(1) by (simp add: keeps_def)
qed

lemma run_counts:
  assumes "finite (seen_ids self)"
  shows "finite (seen_ids (final (run self cs)))
    \<and> card (seen_ids self) + length (follows (actions (run self cs)))
        \<le> card (seen_ids (final (run self cs)))"
  using assms
proof (induction cs arbitrary: self)
  case Nil
  then show ?case by (simp add: final_def actions_def)
next
  case (Cons c cs)
  show ?case
  proof (cases c)
    case (Parse response)
    note k = keeps_counts [OF keeps_parse [of self response] Cons.prems]
    from Cons.IH [OF k(1)] k(2) show ?thesis
      unfolding Parse run_Parse by (simp add: final_def actions_def follows_append)
  next
    case (ParseAbs response meta)
    have "finite (seen_ids (snd (parse_abs self response meta)))"
      using Cons.prems by (simp add: parse_abs_effect)
    from Cons.IH [OF this] show ?thesis
      unfolding ParseAbs run_ParseAbs by (simp add: final_def actions_def parse_abs_effect)
  qed
qed

lemma threshold_out_of_reach:
  assumes "answers self pending cs" and "finite (seen_ids self)"
    and "buffered self + length pending < card (seen_ids self)"
  shows "emitted (run self cs) = []"
  using assms
proof (induction cs arbitrary: self pending)
  case Nil
  then show ?case by (simp add: emitted_def)
next
  case (Cons c cs)
  show ?case
  proof (cases c)
    case (Parse response)
    let ?r = "parse self response"
    note k = keeps_counts [OF keeps_parse [of self response] Cons.prems(2)]
    have "answers (after ?r) (pending @ follows (yielded ?r)) cs"
      using Cons.prems(1) Parse by (simp add: after_def yielded_def split: prod.splits)
    moreover have "buffered (after ?r) + length (pending @ follows (yielded ?r))
        < card (seen_ids (after ?r))"
      using k Cons.prems(3) by (simp add: buffered_def)
    ultimately have "emitted (run (after ?r) cs) = []"
      using k(1) Cons.IH [of "after ?r" "pending @ follows (yielded ?r)"] by blast
    then show ?thesis
      unfolding Parse run_Parse emitted_def by simp
  next
    case (ParseAbs response meta)
    let ?s1 = "snd (parse_abs self response meta)"
    from Cons.prems(1) ParseAbs have m: "meta \<in> set pending"
      and a: "answers ?s1 (remove1 meta pending) cs"
      by simp_all
    from m have lp: "length pending = Suc (length (remove1 meta pending))"
      by (simp add: length_remove1) (metis length_pos_if_in_set Suc_pred)
    have la: "length (appended self response meta) = Suc (buffered self)"
      by (simp add: appended_def buffered_def split: option.splits)
    with Cons.prems(3) lp have lt: "\<not> card (seen_ids self) \<le> length (appended self response meta)"
      by simp
    then have pa: "parse_abs self response meta
        = ([], self\<lparr>buffer := Some (appended self response meta)\<rparr>)"
      by (simp add: parse_abs_cases)
    have "buffered ?s1 + length (remove1 meta pending) < card (seen_ids ?s1)"
      using Cons.prems(3) lp la by (simp add: pa buffered_def)
    moreover have "finite (seen_ids ?s1)"
      using Cons.prems(2) by (simp add: pa)
    ultimately have "emitted (run ?s1 cs) = []"
      using a Cons.IH [of ?s1 "remove1 meta pending"] by blast
    with pa show ?thesis
      unfolding ParseAbs run_ParseAbs emitted_def by simp
  qed
qed

text \<open>
  Claim C2, at two runs in which every request has been answered. In the first, the one
  listing page has two entries, one of them skipped by the category filter: the threshold
  counts both identifiers, the buffer only reaches one record, and the record of
  \<^verbatim>\<open>2401.00002\<close> stays in the buffer: nothing is yielded. In the second, two categories
  are visited one after the other, each with one entry: the first release empties the
  buffer, the threshold still counts the identifier of the first category, and the record
  of the second category is not yielded. After either run, whatever calls follow, as long
  as they answer requests that were dispatched, nothing is yielded any more.
\<close>

theorem buffered_record_never_released:
  "run (spider_init (Some ''math.QA'')) filtered_run
   = ([Follow (stub ''2401.00002'' ''new'' {''math.QA'', ''math.RT''} 0 0),
       Debug ''2401.00001'' {''math.AG''} {''math.QA''}],
      [],
      \<lparr>target_categories = {''math.QA''},
       start_urls = [''https://arxiv.org/list/math.QA/new''],
       seen_ids = {''2401.00002'', ''2401.00001''},
       buffer = Some [make_item (stub ''2401.00002'' ''new'' {''math.QA'', ''math.RT''} 0 0) ''v1'']\<rparr>)
   \<and> run (spider_init (Some ''math.RT,math.QA'')) two_category_run
   = ([Follow (stub ''2401.00002'' ''new'' {''math.QA''} 0 0),
       Follow (stub ''2401.00003'' ''new'' {''math.RT''} 1 0)],
      [pop_keys (make_item (stub ''2401.00002'' ''new'' {''math.QA''} 0 0) ''v1'')],
      \<lparr>target_categories = {''math.QA'', ''math.RT''},
       start_urls = [''https://arxiv.org/list/math.QA/new'', ''https://arxiv.org/list/math.RT/new''],
       seen_ids = {''2401.00002'', ''2401.00003''},
       buffer = Some [make_item (stub ''2401.00003'' ''new'' {''math.RT''} 1 0) ''v1'']\<rparr>)
   \<and> (answers (final (run (spider_init (Some ''math.QA'')) filtered_run)) [] cs
        \<longrightarrow> emitted (run (final (run (spider_init (Some ''math.QA'')) filtered_run)) cs) = [])
   \<and> (answers (final (run (spider_init (Some ''math.RT,math.QA'')) two_category_run)) [] cs
        \<longrightarrow> emitted (run (final (run (spider_init (Some ''math.RT,math.QA'')) two_category_run)) cs)
            = [])"
proof -
  let ?A = "run (spider_init (Some ''math.QA'')) filtered_run"
  let ?B = "run (spider_init (Some ''math.RT,math.QA'')) two_category_run"
  have a: "?A
   = ([Follow (stub ''2401.00002'' ''new'' {''math.QA'', ''math.RT''} 0 0),
       Debug ''2401.00001'' {''math.AG''} {''math.QA''}],
      [],
      \<lparr>target_categories = {''math.QA''},
       start_urls = [''https://arxiv.org/list/math.QA/new''],
       seen_ids = {''2401.00002'', ''2401.00001''},
       buffer = Some [make_item (stub ''2401.00002'' ''new'' {''math.QA'', ''math.RT''} 0 0) ''v1'']\<rparr>)"
    by code_simp
  have b: "?B
   = ([Follow (stub ''2401.00002'' ''new'' {''math.QA''} 0 0),
       Follow (stub ''2401.00003'' ''new'' {''math.RT''} 1 0)],
      [pop_keys (make_item (stub ''2401.00002'' ''new'' {''math.QA''} 0 0) ''v1'')],
      \<lparr>target_categories = {''math.QA'', ''math.RT''},
       start_urls = [''https://arxiv.org/list/math.QA/new'', ''https://arxiv.org/list/math.RT/new''],
       seen_ids = {''2401.00002'', ''2401.00003''},
       buffer = Some [make_item (stub ''2401.00003'' ''new'' {''math.RT''} 1 0) ''v1'']\<rparr>)"
    by code_simp
  have fa: "finite (seen_ids (final ?A))"
    and ca: "buffered (final ?A) + length ([] :: meta_item list) < card (seen_ids (final ?A))"
    unfolding a by (simp_all add: final_def buffered_def)
  have fb: "finite (seen_ids (final ?B))"
    and cb: "buffered (final ?B) + length ([] :: meta_item list) < card (seen_ids (final ?B))"
    unfolding b by (simp_all add: final_def buffered_def)
  have "answers (final ?A) [] cs \<longrightarrow> emitted (run (final ?A) cs) = []"
    using threshold_out_of_reach [OF _ fa ca] by blast
  moreover have "answers (final ?B) [] cs \<longrightarrow> emitted (run (final ?B) cs) = []"
    using threshold_out_of_reach [OF _ fb cb] by blast
  ultimately show ?thesis using a b by blast
qed

theorem buffered_record_never_released_witness:
  "answers (final (run (spider_init (Some ''math.RT,math.QA'')) two_category_run)) [] later_calls
   \<and> emitted (run (final (run (spider_init (Some ''math.RT,math.QA'')) two_category_run))
        later_calls) = []
   \<and> follows (actions (run (final (run (spider_init (Some ''math.RT,math.QA'')) two_category_run))
        later_calls)) = [stub ''2401.00004'' ''other'' {''math.RT''} 1 3]"
proof -
  have a: "answers (final (run (spider_init (Some ''math.RT,math.QA'')) two_category_run)) []
      later_calls
    \<and> follows (actions (run (final (run (spider_init (Some ''math.RT,math.QA'')) two_category_run))
        later_calls)) = [stub ''2401.00004'' ''other'' {''math.RT''} 1 3]"
    by code_simp
  from buffered_record_never_released [of later_calls] a show ?thesis by blast
qed

subsection \<open>The version of a paper\<close>

lemma version_of_cases:
  "version_of \<lparr>canonical = Some c, h1_texts = h\<rparr> =
     (case search rx_canonical c of
        Some m \<Rightarrow>
          if c \<noteq> [] \<and> group1 m \<noteq> ''v1'' then group1 m
          else (case search rx_h1 (join '' '' h) of None \<Rightarrow> ''v1'' | Some m2 \<Rightarrow> group1 m2)
      | None \<Rightarrow> (case search rx_h1 (join '' '' h) of None \<Rightarrow> ''v1'' | Some m2 \<Rightarrow> group1 m2))"
  by (simp add: version_of_def Let_def split: option.splits)

text \<open>
  Claim C4, at an abstract page whose canonical link ends in \<^verbatim>\<open>v1\<close> and whose heading
  holds the token \<^verbatim>\<open>v2\<close>: the canonical link matches and gives \<^verbatim>\<open>v1\<close>, the heading
  is scanned all the same, and the version is \<^verbatim>\<open>v2\<close>.
\<close>

theorem canonical_v1_overridden_by_heading:
  "canonical v1_abs = Some ''https://arxiv.org/abs/2401.00001v1''
   \<and> map_option group1 (search rx_canonical ''https://arxiv.org/abs/2401.00001v1'') = Some ''v1''
   \<and> map_option group1 (search rx_h1 (join '' '' (h1_texts v1_abs))) = Some ''v2''
   \<and> version_of v1_abs = ''v2''"
  by code_simp

subsection \<open>The order of the visits\<close>

text \<open>With at most one request in flight, the listings already visited, the listing in
  flight and the listings still to start are, in this order, the start URLs at every
  moment of a crawl.\<close>

lemma engine_step_order:
  assumes "engine_step w e m = Some e'" and "length (in_flight e) \<le> CONCURRENT_REQUESTS"
  shows "length (in_flight e') \<le> CONCURRENT_REQUESTS"
    and "visited e' @ listings (in_flight e') @ to_start e'
       = visited e @ listings (in_flight e) @ to_start e"
proof -
  have "length (in_flight e') \<le> CONCURRENT_REQUESTS
    \<and> visited e' @ listings (in_flight e') @ to_start e'
       = visited e @ listings (in_flight e) @ to_start e"
  proof (cases m)
    case Start
    with assms(1) obtain u us where s: "to_start e = u # us"
      and l: "length (in_flight e) < CONCURRENT_REQUESTS"
      and e': "e' = e\<lparr>to_start := us, in_flight := in_flight e @ [Listing u]\<rparr>"
      by (auto split: list.splits if_splits)
    from l have "in_flight e = []" by (simp add: CONCURRENT_REQUESTS_def)
    with s e' show ?thesis by (simp add: CONCURRENT_REQUESTS_def)
  next
    case (Send k)
    with assms(1) have l: "length (in_flight e) < CONCURRENT_REQUESTS"
      and e': "e' = e\<lparr>scheduled := without k (scheduled e),
                       in_flight := in_flight e @ [Abstract (scheduled e ! k)]\<rparr>"
      by (auto split: if_splits)
    from l have "in_flight e = []" by (simp add: CONCURRENT_REQUESTS_def)
    with e' show ?thesis by (simp add: CONCURRENT_REQUESTS_def)
  next
    case (Deliver k)
    with assms(1) have k: "k < length (in_flight e)" by (auto split: if_splits)
    with assms(2) have "length (in_flight e) = 1" and k0: "k = 0"
      by (simp_all add: CONCURRENT_REQUESTS_def)
    then obtain r where r: "in_flight e = [r]"
      by (cases "in_flight e") auto
    show ?thesis
    proof (cases r)
      case (Listing u)
      with assms(1) Deliver k0 r show ?thesis
        by (auto simp: without_def split: prod.splits)
    next
      case (Abstract meta)
      with assms(1) Deliver k0 r show ?thesis
        by (auto simp: without_def split: prod.splits)
    qed
  qed
  then show "length (in_flight e') \<le> CONCURRENT_REQUESTS"
    and "visited e' @ listings (in_flight e') @ to_start e'
       = visited e @ listings (in_flight e) @ to_start e"
    by simp_all
qed

lemma engine_run_order:
  assumes "engine_run w e ms = Some e'" and "length (in_flight e) \<le> CONCURRENT_REQUESTS"
  shows "length (in_flight e') \<le> CONCURRENT_REQUESTS
    \<and> visited e' @ listings (in_flight e') @ to_start e'
       = visited e @ listings (in_flight e) @ to_start e"
  using assms
proof (induction ms arbitrary: e)
  case Nil
  then show ?case by simp
next
  case (Cons m ms)
  from Cons.prems(1) obtain e1 where s: "engine_step w e m = Some e1"
    and r: "engine_run w e1 ms = Some e'"
    by (auto split: option.splits)
  note o = engine_step_order [OF s Cons.prems(2)]
  from Cons.IH [OF r o(1)] o(2) show ?case by simp
qed

text \<open>The calls of a crawl are a run of the spider: the spider of the engine is the one
  that the run ends with, and the items of the engine are the items of the run.\<close>

lemma engine_step_calls:
  assumes "engine_step w e m = Some e'"
  shows "\<exists>cs. calls e' = calls e @ cs
    \<and> spider_at e' = final (run (spider_at e) cs)
    \<and> items_out e' = items_out e @ emitted (run (spider_at e) cs)"
proof (cases m)
  case Start
  with assms have "calls e' = calls e @ [] \<and> spider_at e' = final (run (spider_at e) [])
    \<and> items_out e' = items_out e @ emitted (run (spider_at e) [])"
    by (auto simp: final_def emitted_def split: list.splits if_splits)
  then show ?thesis by blast
next
  case (Send k)
  with assms have "calls e' = calls e @ [] \<and> spider_at e' = final (run (spider_at e) [])
    \<and> items_out e' = items_out e @ emitted (run (spider_at e) [])"
    by (auto simp: final_def emitted_def split: if_splits)
  then show ?thesis by blast
next
  case (Deliver k)
  with assms have k: "k < length (in_flight e)" by (auto split: if_splits)
  show ?thesis
  proof (cases "in_flight e ! k")
    case (Listing u)
    let ?c = "Parse (fetch_listing w u)"
    from assms Deliver k Listing
    have "calls e' = calls e @ [?c] \<and> spider_at e' = final (run (spider_at e) [?c])
      \<and> items_out e' = items_out e @ emitted (run (spider_at e) [?c])"
      by (auto simp: final_def emitted_def split: prod.splits)
    then show ?thesis by blast
  next
    case (Abstract meta)
    let ?c = "ParseAbs (fetch_abs w meta) meta"
    from assms Deliver k Abstract
    have "calls e' = calls e @ [?c] \<and> spider_at e' = final (run (spider_at e) [?c])
      \<and> items_out e' = items_out e @ emitted (run (spider_at e) [?c])"
      by (auto simp: final_def emitted_def split: prod.splits)
    then show ?thesis by blast
  qed
qed

lemma engine_run_calls:
  assumes "engine_run w e ms = Some e'"
  shows "\<exists>cs. calls e' = calls e @ cs
    \<and> spider_at e' = final (run (spider_at e) cs)
    \<and> items_out e' = items_out e @ emitted (run (spider_at e) cs)"
  using assms
proof (induction ms arbitrary: e)
  case Nil
  then have "calls e' = calls e @ [] \<and> spider_at e' = final (run (spider_at e) [])
    \<and> items_out e' = items_out e @ emitted (run (spider_at e) [])"
    by (simp add: final_def emitted_def)
  then show ?case by blast
next
  case (Cons m ms)
  from Cons.prems obtain e1 where s: "engine_step w e m = Some e1"
    and r: "engine_run w e1 ms = Some e'"
    by (auto split: option.splits)
  from engine_step_calls [OF s] obtain cs1 where 1: "calls e1 = calls e @ cs1"
    "spider_at e1 = final (run (spider_at e) cs1)"
    "items_out e1 = items_out e @ emitted (run (spider_at e) cs1)"
    by blast
  from Cons.IH [OF r] obtain cs2 where 2: "calls e' = calls e1 @ cs2"
    "spider_at e' = final (run (spider_at e1) cs2)"
    "items_out e' = items_out e1 @ emitted (run (spider_at e1) cs2)"
    by blast
  have "calls e' = calls e @ (cs1 @ cs2) \<and> spider_at e' = final (run (spider_at e) (cs1 @ cs2))
    \<and> items_out e' = items_out e @ emitted (run (spider_at e) (cs1 @ cs2))"
    using 1 2 by (simp add: run_append final_def emitted_def)
  then show ?case by blast
qed

text \<open>
  Claim C7 fails where a category is given twice: \<^verbatim>\<open>start_urls\<close> holds its listing URL
  twice, and the crawl visits the listing twice.
\<close>

theorem duplicate_category_visited_twice:
  "cats_listed (Some ''math.QA,math.QA'') = [''math.QA'', ''math.QA'']
   \<and> start_urls (spider_init (Some ''math.QA,math.QA''))
     = [''https://arxiv.org/list/math.QA/new'', ''https://arxiv.org/list/math.QA/new'']
   \<and> map_option (\<lambda>e. (visited e, in_flight e, to_start e))
        (engine_run two_listings (engine_init (Some ''math.QA,math.QA'')) listings_only)
     = Some ([''https://arxiv.org/list/math.QA/new'', ''https://arxiv.org/list/math.QA/new''],
             [], [])"
  by code_simp

text \<open>
  Claim C7, amended. Before any fetch begins, the codes of the input (split at the commas,
  stripped, the empty ones dropped) are sorted by ascending priority, stably, and the
  start URLs are the listing URLs of the sorted codes, one for every occurrence of a code:
  nothing is removed, only the set of target categories is free of repetitions. The
  listings are then visited strictly in that order, one at a time: at every moment of a
  crawl at most one request is in flight, and the listings visited, the listing in flight
  and the listings not yet started are, in this order, the start URLs; when none is left,
  the listings visited are the start URLs.
\<close>

theorem listings_visited_in_priority_order:
  "start_urls (spider_init env) = map list_url (cats_of env)
   \<and> sorted (map priority (cats_of env))
   \<and> mset (cats_of env) = mset (cats_listed env)
   \<and> filter (\<lambda>c. priority c = k) (cats_of env) = filter (\<lambda>c. priority c = k) (cats_listed env)
   \<and> target_categories (spider_init env) = set (cats_listed env)
   \<and> visited (engine_init env) = [] \<and> in_flight (engine_init env) = []
   \<and> to_start (engine_init env) = map list_url (cats_of env)
   \<and> (engine_run w (engine_init env) ms = Some e \<longrightarrow>
        visited e @ listings (in_flight e) @ to_start e = map list_url (cats_of env)
        \<and> length (in_flight e) \<le> 1
        \<and> (to_start e = [] \<and> in_flight e = [] \<longrightarrow> visited e = map list_url (cats_of env)))"
proof -
  have s: "start_urls (spider_init env) = map list_url (cats_of env)"
    "target_categories (spider_init env) = set (cats_listed env)"
    by (simp_all add: spider_init_def cats_of_def Let_def)
  have c: "sorted (map priority (cats_of env))"
    "mset (cats_of env) = mset (cats_listed env)"
    "filter (\<lambda>c. priority c = k) (cats_of env) = filter (\<lambda>c. priority c = k) (cats_listed env)"
    by (simp_all add: cats_of_def sort_key_stable)
  have i: "visited (engine_init env) = []" "in_flight (engine_init env) = []"
    "to_start (engine_init env) = map list_url (cats_of env)"
    by (simp_all add: engine_init_def s)
  have r: "engine_run w (engine_init env) ms = Some e \<longrightarrow>
        visited e @ listings (in_flight e) @ to_start e = map list_url (cats_of env)
        \<and> length (in_flight e) \<le> 1
        \<and> (to_start e = [] \<and> in_flight e = [] \<longrightarrow> visited e = map list_url (cats_of env))"
  proof
    assume a: "engine_run w (engine_init env) ms = Some e"
    have "length (in_flight (engine_init env)) \<le> CONCURRENT_REQUESTS"
      by (simp add: i)
    from engine_run_order [OF a this]
    have o: "length (in_flight e) \<le> CONCURRENT_REQUESTS"
      "visited e @ listings (in_flight e) @ to_start e = map list_url (cats_of env)"
      by (simp_all add: i)
    from o(1) have "length (in_flight e) \<le> 1" by (simp add: CONCURRENT_REQUESTS_def)
    moreover have "to_start e = [] \<and> in_flight e = [] \<longrightarrow> visited e = map list_url (cats_of env)"
      using o(2) by auto
    ultimately show "visited e @ listings (in_flight e) @ to_start e = map list_url (cats_of env)
        \<and> length (in_flight e) \<le> 1
        \<and> (to_start e = [] \<and> in_flight e = [] \<longrightarrow> visited e = map list_url (cats_of env))"
      using o(2) by blast
  qed
  from s c i r show ?thesis by blast
qed

theorem listings_visited_in_priority_order_witness:
  "engine_run two_listings (engine_init (Some ''math.RT, math.QA'')) listings_first
     = Some (the (engine_run two_listings (engine_init (Some ''math.RT, math.QA'')) listings_first))
   \<and> to_start (the (engine_run two_listings (engine_init (Some ''math.RT, math.QA''))
        listings_first)) = []
   \<and> in_flight (the (engine_run two_listings (engine_init (Some ''math.RT, math.QA''))
        listings_first)) = []
   \<and> visited (the (engine_run two_listings (engine_init (Some ''math.RT, math.QA''))
        listings_first)) = map list_url (cats_of (Some ''math.RT, math.QA''))
   \<and> cats_listed (Some ''math.RT, math.QA'') = [''math.RT'', ''math.QA'']
   \<and> map list_url (cats_of (Some ''math.RT, math.QA''))
     = [''https://arxiv.org/list/math.QA/new'', ''https://arxiv.org/list/math.RT/new'']"
proof -
  let ?r = "engine_run two_listings (engine_init (Some ''math.RT, math.QA'')) listings_first"
  have a: "map_option (\<lambda>e. (to_start e, in_flight e)) ?r = Some ([], [])"
    by code_simp
  then obtain e where e: "?r = Some e" and f: "to_start e = []" "in_flight e = []"
    by (cases ?r) auto
  have c: "cats_listed (Some ''math.RT, math.QA'') = [''math.RT'', ''math.QA'']
    \<and> map list_url (cats_of (Some ''math.RT, math.QA''))
     = [''https://arxiv.org/list/math.QA/new'', ''https://arxiv.org/list/math.RT/new'']"
    by code_simp
  from listings_visited_in_priority_order
    [of "Some ''math.RT, math.QA''" 0 two_listings listings_first e] e f
  have "visited e = map list_url (cats_of (Some ''math.RT, math.QA''))"
    by blast
  with e f c show ?thesis by simp
qed

subsection \<open>Identifiers listed twice\<close>

text \<open>The threshold of \<^verbatim>\<open>parse_abs\<close> in a crawl: once the identifiers seen are more than
  the records buffered and the requests waiting or in flight together, no step of the
  engine yields an item.\<close>

lemma abstracts_append: "abstracts (xs @ ys) = abstracts xs @ abstracts ys"
  by (induction xs rule: abstracts.induct) simp_all

lemma length_without: "k < length xs \<Longrightarrow> Suc (length (without k xs)) = length xs"
  by (simp add: without_def min_def)

lemma abstracts_without_listing:
  assumes "k < length rs" and "rs ! k = Listing u"
  shows "abstracts (without k rs) = abstracts rs"
proof -
  from id_take_nth_drop [OF assms(1)]
  have "abstracts rs = abstracts (take k rs @ rs ! k # drop (Suc k) rs)"
    by (rule arg_cong)
  then show ?thesis by (simp add: without_def abstracts_append assms(2))
qed

lemma abstracts_without_abstract:
  assumes "k < length rs" and "rs ! k = Abstract m"
  shows "Suc (length (abstracts (without k rs))) = length (abstracts rs)"
proof -
  from id_take_nth_drop [OF assms(1)]
  have "abstracts rs = abstracts (take k rs @ rs ! k # drop (Suc k) rs)"
    by (rule arg_cong)
  then show ?thesis by (simp add: without_def abstracts_append assms(2))
qed

lemma engine_step_threshold:
  assumes "engine_step w e m = Some e'" and "finite (seen_ids (spider_at e))"
    and "buffered (spider_at e) + length (scheduled e) + length (abstracts (in_flight e))
          < card (seen_ids (spider_at e))"
  shows "finite (seen_ids (spider_at e'))
    \<and> buffered (spider_at e') + length (scheduled e') + length (abstracts (in_flight e'))
          < card (seen_ids (spider_at e'))
    \<and> items_out e' = items_out e"
proof (cases m)
  case Start
  with assms(1) obtain u us where
    "e' = e\<lparr>to_start := us, in_flight := in_flight e @ [Listing u]\<rparr>"
    by (auto split: list.splits if_splits)
  with assms(2,3) show ?thesis by (simp add: abstracts_append)
next
  case (Send k)
  with assms(1) have k: "k < length (scheduled e)"
    and e': "e' = e\<lparr>scheduled := without k (scheduled e),
                     in_flight := in_flight e @ [Abstract (scheduled e ! k)]\<rparr>"
    by (auto split: if_splits)
  from length_without [OF k] assms(2,3) show ?thesis
    by (simp add: e' abstracts_append)
next
  case (Deliver k)
  with assms(1) have k: "k < length (in_flight e)" by (auto split: if_splits)
  show ?thesis
  proof (cases "in_flight e ! k")
    case (Listing u)
    let ?r = "parse (spider_at e) (fetch_listing w u)"
    from assms(1) Deliver k Listing
    have e': "spider_at e' = after ?r" "in_flight e' = without k (in_flight e)"
      "scheduled e' = scheduled e @ follows (yielded ?r)" "items_out e' = items_out e"
      by (auto simp: after_def yielded_def split: prod.splits)
    note c = keeps_counts [OF keeps_parse [of "spider_at e" "fetch_listing w u"] assms(2)]
    from c assms(3) show ?thesis
      by (simp add: e' abstracts_without_listing [OF k Listing] buffered_def)
  next
    case (Abstract meta)
    let ?self = "spider_at e"
    let ?response = "fetch_abs w meta"
    from abstracts_without_abstract [OF k Abstract]
    have l: "Suc (length (abstracts (without k (in_flight e)))) = length (abstracts (in_flight e))" .
    have la: "length (appended ?self ?response meta) = Suc (buffered ?self)"
      by (simp add: appended_def buffered_def split: option.splits)
    with assms(3) l have "\<not> card (seen_ids ?self) \<le> length (appended ?self ?response meta)"
      by simp
    then have pa: "parse_abs ?self ?response meta
        = ([], ?self\<lparr>buffer := Some (appended ?self ?response meta)\<rparr>)"
      by (simp add: parse_abs_cases)
    from assms(1) Deliver k Abstract
    have e': "spider_at e' = ?self\<lparr>buffer := Some (appended ?self ?response meta)\<rparr>"
      "in_flight e' = without k (in_flight e)"
      "scheduled e' = scheduled e" "items_out e' = items_out e"
      by (auto simp: pa)
    from assms(2,3) l la show ?thesis
      by (simp add: e' buffered_def)
  qed
qed

lemma engine_run_threshold:
  assumes "engine_run w e ms = Some e'" and "finite (seen_ids (spider_at e))"
    and "buffered (spider_at e) + length (scheduled e) + length (abstracts (in_flight e))
          < card (seen_ids (spider_at e))"
  shows "items_out e' = items_out e"
  using assms
proof (induction ms arbitrary: e)
  case Nil
  then show ?case by simp
next
  case (Cons m ms)
  from Cons.prems(1) obtain e1 where s: "engine_step w e m = Some e1"
    and r: "engine_run w e1 ms = Some e'"
    by (auto split: option.splits)
  from engine_step_threshold [OF s Cons.prems(2,3)] Cons.IH [OF r] show ?case by simp
qed

text \<open>The first two steps of a crawl: with nothing in flight and nothing waiting, the
  engine can only start the next listing; with a listing in flight and nothing waiting,
  it can only deliver it.\<close>

lemma engine_step_first:
  assumes "engine_step w e m = Some e'" and "in_flight e = []" and "scheduled e = []"
  shows "\<exists>u us. to_start e = u # us \<and> e' = e\<lparr>to_start := us, in_flight := [Listing u]\<rparr>"
proof (cases m)
  case Start
  with assms show ?thesis by (auto split: list.splits if_splits)
next
  case (Send k)
  with assms show ?thesis by simp
next
  case (Deliver k)
  with assms show ?thesis by simp
qed

lemma engine_step_listing:
  assumes "engine_step w e m = Some e'" and "in_flight e = [Listing u]" and "scheduled e = []"
  shows "spider_at e' = after (parse (spider_at e) (fetch_listing w u))
    \<and> scheduled e' = follows (yielded (parse (spider_at e) (fetch_listing w u)))
    \<and> in_flight e' = [] \<and> items_out e' = items_out e"
proof (cases m)
  case Start
  with assms show ?thesis by (auto simp: CONCURRENT_REQUESTS_def split: list.splits)
next
  case (Send k)
  with assms show ?thesis by simp
next
  case (Deliver k)
  with assms have "k = 0" by (auto split: if_splits)
  with assms Deliver show ?thesis
    by (auto simp: without_def after_def yielded_def split: prod.splits)
qed

text \<open>
  Claim C5, at the two listings of the examples, both of target categories. The identifier
  \<^verbatim>\<open>2401.00002\<close> is listed under \<^verbatim>\<open>math.QA\<close> and under \<^verbatim>\<open>math.RT\<close>, each time with one
  subject line. The crawl dispatches it once, with the priority of \<^verbatim>\<open>math.QA\<close>, the
  category visited first; its second occurrence is dropped. But the listing of \<^verbatim>\<open>math.QA\<close>
  also has an entry that the category filter skips, whose identifier is counted by the
  threshold of \<^verbatim>\<open>parse_abs\<close>: three identifiers seen, two records buffered at most. So
  \<^verbatim>\<open>2401.00002\<close> stays in the buffer, in the crawl that visits both listings first, in the
  crawl that answers each listing before the next, and in every other: no crawl emits
  anything. What the claim says of the requests does hold: in every run, the requests
  dispatched have identifiers that differ from each other and that were not seen before.
\<close>

theorem cross_listed_identifier_never_emitted:
  "''2401.00002'' \<in> set (listed_ids qa_page) \<and> ''2401.00002'' \<in> set (listed_ids rt_page)
   \<and> target_categories (spider_init (Some ''math.RT,math.QA'')) = {''math.QA'', ''math.RT''}
   \<and> map_option scheduled
        (engine_run two_listings (engine_init (Some ''math.RT,math.QA'')) listings_only)
     = Some [stub ''2401.00002'' ''new'' {''math.QA'', ''math.RT''} 0 0,
             stub ''2401.00003'' ''new'' {''math.RT''} 1 0]
   \<and> map_option (\<lambda>e. (visited e, to_start e, scheduled e, in_flight e, items_out e, spider_at e))
        (engine_run two_listings (engine_init (Some ''math.RT,math.QA'')) listings_first)
     = Some ([''https://arxiv.org/list/math.QA/new'', ''https://arxiv.org/list/math.RT/new''],
             [], [], [], [],
             \<lparr>target_categories = {''math.QA'', ''math.RT''},
              start_urls = [''https://arxiv.org/list/math.QA/new'',
                            ''https://arxiv.org/list/math.RT/new''],
              seen_ids = {''2401.00002'', ''2401.00001'', ''2401.00003''},
              buffer = Some
                [make_item (stub ''2401.00002'' ''new'' {''math.QA'', ''math.RT''} 0 0) ''v1'',
                 make_item (stub ''2401.00003'' ''new'' {''math.RT''} 1 0) ''v1'']\<rparr>)
   \<and> map_option (\<lambda>e. (visited e, to_start e, scheduled e, in_flight e, items_out e, spider_at e))
        (engine_run two_listings (engine_init (Some ''math.RT,math.QA'')) listing_by_listing)
     = Some ([''https://arxiv.org/list/math.QA/new'', ''https://arxiv.org/list/math.RT/new''],
             [], [], [], [],
             \<lparr>target_categories = {''math.QA'', ''math.RT''},
              start_urls = [''https://arxiv.org/list/math.QA/new'',
                            ''https://arxiv.org/list/math.RT/new''],
              seen_ids = {''2401.00002'', ''2401.00001'', ''2401.00003''},
              buffer = Some
                [make_item (stub ''2401.00002'' ''new'' {''math.QA'', ''math.RT''} 0 0) ''v1'',
                 make_item (stub ''2401.00003'' ''new'' {''math.RT''} 1 0) ''v1'']\<rparr>)
   \<and> (engine_run two_listings (engine_init (Some ''math.RT,math.QA'')) ms = Some e
        \<longrightarrow> items_out e = [])
   \<and> distinct (map m_id (follows (actions (run self cs))))
   \<and> set (map m_id (follows (actions (run self cs)))) \<inter> seen_ids self = {}"
proof -
  let ?env = "Some ''math.RT,math.QA''"
  have 0: "distinct (map m_id (follows (actions (run self cs))))
     \<and> set (map m_id (follows (actions (run self cs)))) \<inter> seen_ids self = {}"
    using run_effect [of self cs] by blast
  let ?e0 = "engine_init ?env"
  let ?r = "parse (spider_init ?env) qa_page"
  have 1: "''2401.00002'' \<in> set (listed_ids qa_page) \<and> ''2401.00002'' \<in> set (listed_ids rt_page)
     \<and> target_categories (spider_init ?env) = {''math.QA'', ''math.RT''}"
    by code_simp
  have 2: "map_option scheduled (engine_run two_listings ?e0 listings_only)
     = Some [stub ''2401.00002'' ''new'' {''math.QA'', ''math.RT''} 0 0,
             stub ''2401.00003'' ''new'' {''math.RT''} 1 0]"
    by code_simp
  have 3: "map_option (\<lambda>e. (visited e, to_start e, scheduled e, in_flight e, items_out e, spider_at e))
        (engine_run two_listings ?e0 listings_first)
     = Some ([''https://arxiv.org/list/math.QA/new'', ''https://arxiv.org/list/math.RT/new''],
             [], [], [], [],
             \<lparr>target_categories = {''math.QA'', ''math.RT''},
              start_urls = [''https://arxiv.org/list/math.QA/new'',
                            ''https://arxiv.org/list/math.RT/new''],
              seen_ids = {''2401.00002'', ''2401.00001'', ''2401.00003''},
              buffer = Some
                [make_item (stub ''2401.00002'' ''new'' {''math.QA'', ''math.RT''} 0 0) ''v1'',
                 make_item (stub ''2401.00003'' ''new'' {''math.RT''} 1 0) ''v1'']\<rparr>)"
    by code_simp
  have 4: "map_option (\<lambda>e. (visited e, to_start e, scheduled e, in_flight e, items_out e, spider_at e))
        (engine_run two_listings ?e0 listing_by_listing)
     = Some ([''https://arxiv.org/list/math.QA/new'', ''https://arxiv.org/list/math.RT/new''],
             [], [], [], [],
             \<lparr>target_categories = {''math.QA'', ''math.RT''},
              start_urls = [''https://arxiv.org/list/math.QA/new'',
                            ''https://arxiv.org/list/math.RT/new''],
              seen_ids = {''2401.00002'', ''2401.00001'', ''2401.00003''},
              buffer = Some
                [make_item (stub ''2401.00002'' ''new'' {''math.QA'', ''math.RT''} 0 0) ''v1'',
                 make_item (stub ''2401.00003'' ''new'' {''math.RT''} 1 0) ''v1'']\<rparr>)"
    by code_simp
  have 5: "engine_run two_listings ?e0 ms = Some e \<longrightarrow> items_out e = []"
  proof
    assume a: "engine_run two_listings ?e0 ms = Some e"
    have c: "cats_of ?env = [''math.QA'', ''math.RT'']" by code_simp
    have i: "to_start ?e0 = [list_url ''math.QA'', list_url ''math.RT'']" "in_flight ?e0 = []"
      "scheduled ?e0 = []" "items_out ?e0 = []" "spider_at ?e0 = spider_init ?env"
      by (simp_all add: engine_init_def spider_init_def Let_def c)
    have q: "fetch_listing two_listings (list_url ''math.QA'') = qa_page"
      by (simp add: two_listings_def)
    have fin: "finite (seen_ids (after ?r))"
      by (rule keeps_counts(1) [OF keeps_parse]) (simp add: spider_init_def Let_def)
    have lt: "buffered (after ?r) + length (follows (yielded ?r)) < card (seen_ids (after ?r))"
      by code_simp
    show "items_out e = []"
    proof (cases ms)
      case Nil
      with a i show ?thesis by simp
    next
      case (Cons m1 ms1)
      with a obtain e1 where s1: "engine_step two_listings ?e0 m1 = Some e1"
        and r1: "engine_run two_listings e1 ms1 = Some e"
        by (auto split: option.splits)
      from engine_step_first [OF s1 i(2,3)] i(1)
      have e1: "e1 = ?e0\<lparr>to_start := [list_url ''math.RT''],
                         in_flight := [Listing (list_url ''math.QA'')]\<rparr>"
        by auto
      show ?thesis
      proof (cases ms1)
        case Nil
        with r1 have "e = e1" by simp
        then show ?thesis by (simp add: e1 i)
      next
        case (Cons m2 ms2)
        with r1 obtain e2 where s2: "engine_step two_listings e1 m2 = Some e2"
          and r2: "engine_run two_listings e2 ms2 = Some e"
          by (auto split: option.splits)
        have "in_flight e1 = [Listing (list_url ''math.QA'')]" "scheduled e1 = []"
          by (simp_all add: e1 i)
        from engine_step_listing [OF s2 this]
        have e2: "spider_at e2 = after ?r" "scheduled e2 = follows (yielded ?r)"
          "in_flight e2 = []" "items_out e2 = []"
          by (simp_all add: e1 i q)
        have "items_out e = items_out e2"
          by (rule engine_run_threshold [OF r2]) (simp_all add: e2 fin lt)
        with e2 show ?thesis by simp
      qed
    qed
  qed
  from 0 1 2 3 4 5 show ?thesis by blast
qed

theorem cross_listed_identifier_never_emitted_witness:
  "engine_run two_listings (engine_init (Some ''math.RT,math.QA'')) listings_first
     = Some (the (engine_run two_listings (engine_init (Some ''math.RT,math.QA'')) listings_first))
   \<and> items_out (the (engine_run two_listings (engine_init (Some ''math.RT,math.QA''))
        listings_first)) = []
   \<and> map id_key (the (buffer (spider_at
        (the (engine_run two_listings (engine_init (Some ''math.RT,math.QA'')) listings_first)))))
     = [''2401.00002'', ''2401.00003'']"
proof -
  let ?r = "engine_run two_listings (engine_init (Some ''math.RT,math.QA'')) listings_first"
  have a: "map_option (\<lambda>e. map id_key (the (buffer (spider_at e)))) ?r
      = Some [''2401.00002'', ''2401.00003'']"
    by code_simp
  then obtain e where e: "?r = Some e"
    and b: "map id_key (the (buffer (spider_at e))) = [''2401.00002'', ''2401.00003'']"
    by (cases ?r) auto
  from cross_listed_identifier_never_emitted [of listings_first e] e
  have "items_out e = []" by blast
  with e b show ?thesis by simp
qed

subsection \<open>Identifiers of skipped entries\<close>

lemma and_then_return: "and_then r (\<lambda>s. ([], None, s)) = r"
  by (cases r) (auto simp: and_then_def split: option.splits)

text \<open>The scan of a page, cut at one entry of one list block: the scan up to the entry,
  then the entry, then the entries after it, then the blocks after the list.\<close>

lemma parse_blocks_at:
  assumes "zip dts dds = ps1 @ p # ps2"
  shows "parse_blocks response cp cur self (pre @ DL dts dds # post) =
     and_then (parse_blocks response cp cur self (pre @ [DL (map fst ps1) (map snd ps1)]))
       (\<lambda>s. and_then (parse_paper response cp (section_after cur pre) s p)
          (\<lambda>s. and_then (parse_papers response cp (section_after cur pre) s ps2)
             (\<lambda>s. parse_blocks response cp (section_after cur pre) s post)))"
proof -
  have "parse_blocks response cp cur self (pre @ [DL (map fst ps1) (map snd ps1)])
      = and_then (parse_blocks response cp cur self pre)
          (\<lambda>s. parse_papers response cp (section_after cur pre) s ps1)"
    by (simp add: parse_blocks_append zip_map_fst_snd and_then_return)
  moreover have "parse_blocks response cp cur self (pre @ DL dts dds # post)
      = and_then (parse_blocks response cp cur self pre)
          (\<lambda>s. and_then (parse_papers response cp (section_after cur pre) s (ps1 @ p # ps2))
             (\<lambda>s. parse_blocks response cp (section_after cur pre) s post))"
    by (simp add: parse_blocks_append assms)
  ultimately show ?thesis
    by (simp add: parse_papers_append and_then_assoc)
qed

text \<open>
  Claim C3. Let the scan of a listing page reach an entry (nothing raised before it) whose
  identifier has the expected shape and is not yet seen, whose categories miss the target
  set and whose subject text is not empty. Then the identifier is recorded although the
  entry is filtered: after \<^verbatim>\<open>parse\<close> it is among the seen ones, the entry gave the debug
  message and no request, and no later call of any listing dispatches it. The call has
  added more identifiers to the seen ones than it has dispatched requests, and so has
  every run that starts with it: from a spider that has seen nothing, the identifiers
  seen are more than the requests dispatched.
\<close>

theorem filtered_identifier_is_admitted:
  assumes "dlpage response = pre @ DL dts dds # post"
    and "zip dts dds = ps1 @ p # ps2"
    and "parse_blocks response (priority (source_cat (url response))) (''other'', 3) self
           (pre @ [DL (map fst ps1) (map snd ps1)]) = (a1, None, s1)"
    and "entry_id response (fst p) = Inr (Some (i, u))"
    and "i \<notin> seen_ids s1"
    and "paper_categories (snd p) \<inter> target_categories self = {}"
    and "subjects_text (snd p) \<noteq> []"
  shows "i \<in> seen_ids (after (parse self response))
   \<and> Debug i (paper_categories (snd p)) (target_categories self)
       \<in> set (yielded (parse self response))
   \<and> i \<notin> set (map m_id (follows (yielded (parse self response))))
   \<and> i \<notin> set (map m_id (follows (actions (run (after (parse self response)) cs))))
   \<and> (finite (seen_ids self) \<longrightarrow>
        card (seen_ids self) + length (follows (yielded (parse self response)))
          < card (seen_ids (after (parse self response)))
        \<and> card (seen_ids self) + length (follows (actions (run self (Parse response # cs))))
          < card (seen_ids (final (run self (Parse response # cs)))))"
proof -
  let ?cp = "priority (source_cat (url response))"
  let ?sec = "section_after (''other'', 3) pre"
  let ?s2 = "s1\<lparr>seen_ids := insert i (seen_ids s1)\<rparr>"
  let ?d = "Debug i (paper_categories (snd p)) (target_categories self)"
  let ?R = "and_then (parse_papers response ?cp ?sec ?s2 ps2)
              (\<lambda>s. parse_blocks response ?cp ?sec s post)"
  have k1: "keeps self (a1, None, s1)"
    using keeps_parse_blocks [of self response ?cp "(''other'', 3)"
        "pre @ [DL (map fst ps1) (map snd ps1)]"] assms(3) by simp
  then have t: "target_categories s1 = target_categories self"
    by (simp add: keeps_def after_def)
  have e: "parse_paper response ?cp ?sec s1 p = ([?d], None, ?s2)"
    using assms(4,5,6,7) by (simp add: parse_paper_new t)
  have kR: "keeps ?s2 ?R"
    by (intro keeps_and_then keeps_parse_papers keeps_parse_blocks)
  have P: "parse self response = (a1 @ ?d # yielded ?R, raised ?R, after ?R)"
    unfolding parse_def assms(1) parse_blocks_at [OF assms(2)] assms(3)
    by (simp add: and_then_None e yielded_def raised_def after_def)
  have in_s2: "i \<in> seen_ids ?s2" by simp
  have 1: "i \<in> seen_ids (after (parse self response))"
    using kR in_s2 by (auto simp: P keeps_def after_def)
  have 2: "?d \<in> set (yielded (parse self response))"
    by (simp add: P yielded_def)
  have "i \<notin> set (map m_id (follows a1))"
    using k1 assms(5) by (auto simp: keeps_def yielded_def after_def)
  moreover have "i \<notin> set (map m_id (follows (yielded ?R)))"
    using kR in_s2 by (auto simp: keeps_def)
  ultimately have 3: "i \<notin> set (map m_id (follows (yielded (parse self response))))"
    by (simp add: P yielded_def follows_append)
  have 4: "i \<notin> set (map m_id (follows (actions (run (after (parse self response)) cs))))"
    using 1 by (rule run_suppresses)
  have 5: "finite (seen_ids self) \<longrightarrow>
        card (seen_ids self) + length (follows (yielded (parse self response)))
          < card (seen_ids (after (parse self response)))
        \<and> card (seen_ids self) + length (follows (actions (run self (Parse response # cs))))
          < card (seen_ids (final (run self (Parse response # cs))))"
  proof
    assume f: "finite (seen_ids self)"
    note c1 = keeps_counts [OF k1 f]
    have f1: "finite (seen_ids s1)" using c1(1) by (simp add: after_def)
    then have f2: "finite (seen_ids ?s2)" by simp
    note c2 = keeps_counts [OF kR f2]
    have "card (seen_ids ?s2) = Suc (card (seen_ids s1))"
      using f1 assms(5) by simp
    with c1(2) c2(2)
    have lt: "card (seen_ids self) + length (follows (yielded (parse self response)))
          < card (seen_ids (after (parse self response)))"
      by (simp add: P yielded_def after_def follows_append)
    have "finite (seen_ids (after (parse self response)))"
      using c2(1) by (simp add: P after_def)
    from run_counts [OF this, of cs] lt
    have "card (seen_ids self) + length (follows (actions (run self (Parse response # cs))))
          < card (seen_ids (final (run self (Parse response # cs))))"
      unfolding run_Parse by (simp add: final_def actions_def follows_append)
    with lt show "card (seen_ids self) + length (follows (yielded (parse self response)))
          < card (seen_ids (after (parse self response)))
        \<and> card (seen_ids self) + length (follows (actions (run self (Parse response # cs))))
          < card (seen_ids (final (run self (Parse response # cs))))"
      by blast
  qed
  from 1 2 3 4 5 show ?thesis by blast
qed

theorem filtered_identifier_is_admitted_witness:
  "dlpage qa_page
     = [H3 [''New submissions (showing 2 of 2 entries)'']]
       @ DL [entry_dt ''2401.00002'', entry_dt ''2401.00001'']
            [entry_dd ''Quantum Algebra (math.QA); Representation Theory (math.RT)'',
             entry_dd ''Algebraic Geometry (math.AG)''] # []
   \<and> entry_id qa_page (entry_dt ''2401.00001'')
      = Inr (Some (''2401.00001'', ''https://arxiv.org/abs/2401.00001''))
   \<and> paper_categories (entry_dd ''Algebraic Geometry (math.AG)'')
        \<inter> target_categories (spider_init (Some ''math.QA,math.RT'')) = {}
   \<and> subjects_text (entry_dd ''Algebraic Geometry (math.AG)'') \<noteq> []
   \<and> ''2401.00001'' \<in> seen_ids (after (parse (spider_init (Some ''math.QA,math.RT'')) qa_page))
   \<and> Debug ''2401.00001'' (paper_categories (entry_dd ''Algebraic Geometry (math.AG)''))
        (target_categories (spider_init (Some ''math.QA,math.RT'')))
       \<in> set (yielded (parse (spider_init (Some ''math.QA,math.RT'')) qa_page))
   \<and> ''2401.00001'' \<notin> set (map m_id (follows (yielded
         (parse (spider_init (Some ''math.QA,math.RT'')) qa_page))))
   \<and> ''2401.00001'' \<notin> set (map m_id (follows (actions
         (run (after (parse (spider_init (Some ''math.QA,math.RT'')) qa_page)) [Parse rt_page]))))
   \<and> card (seen_ids (spider_init (Some ''math.QA,math.RT'')))
        + length (follows (yielded (parse (spider_init (Some ''math.QA,math.RT'')) qa_page)))
       < card (seen_ids (after (parse (spider_init (Some ''math.QA,math.RT'')) qa_page)))
   \<and> card (seen_ids (spider_init (Some ''math.QA,math.RT'')))
        + length (follows (actions
            (run (spider_init (Some ''math.QA,math.RT'')) (Parse qa_page # [Parse rt_page]))))
       < card (seen_ids (final
            (run (spider_init (Some ''math.QA,math.RT'')) (Parse qa_page # [Parse rt_page]))))"
proof -
  let ?s = "spider_init (Some ''math.QA,math.RT'')"
  let ?p1 = "(entry_dt ''2401.00002'',
              entry_dd ''Quantum Algebra (math.QA); Representation Theory (math.RT)'')"
  let ?p = "(entry_dt ''2401.00001'', entry_dd ''Algebraic Geometry (math.AG)'')"
  let ?pre = "[H3 [''New submissions (showing 2 of 2 entries)'']]"
  let ?dts = "[entry_dt ''2401.00002'', entry_dt ''2401.00001'']"
  let ?dds = "[entry_dd ''Quantum Algebra (math.QA); Representation Theory (math.RT)'',
               entry_dd ''Algebraic Geometry (math.AG)'']"
  let ?s1 = "?s\<lparr>seen_ids := {''2401.00002''}\<rparr>"
  have a: "dlpage qa_page = ?pre @ DL ?dts ?dds # []"
    by code_simp
  have b: "zip ?dts ?dds = [?p1] @ ?p # []"
    by simp
  have c: "parse_blocks qa_page (priority (source_cat (url qa_page))) (''other'', 3) ?s
             (?pre @ [DL (map fst [?p1]) (map snd [?p1])])
           = ([Follow (stub ''2401.00002'' ''new'' {''math.QA'', ''math.RT''} 0 0)], None, ?s1)"
    by code_simp
  have d: "entry_id qa_page (fst ?p)
      = Inr (Some (''2401.00001'', ''https://arxiv.org/abs/2401.00001''))"
    by code_simp
  have e: "''2401.00001'' \<notin> seen_ids ?s1"
    by code_simp
  have f: "paper_categories (snd ?p) \<inter> target_categories ?s = {}"
    by code_simp
  have g: "subjects_text (snd ?p) \<noteq> []"
    by code_simp
  have h: "finite (seen_ids ?s)"
    by (simp add: spider_init_def Let_def)
  from filtered_identifier_is_admitted [OF a b c d e f g, of "[Parse rt_page]"] h
  have "''2401.00001'' \<in> seen_ids (after (parse ?s qa_page))
   \<and> Debug ''2401.00001'' (paper_categories (snd ?p)) (target_categories ?s)
       \<in> set (yielded (parse ?s qa_page))
   \<and> ''2401.00001'' \<notin> set (map m_id (follows (yielded (parse ?s qa_page))))
   \<and> ''2401.00001'' \<notin> set (map m_id (follows (actions
         (run (after (parse ?s qa_page)) [Parse rt_page]))))
   \<and> card (seen_ids ?s) + length (follows (yielded (parse ?s qa_page)))
       < card (seen_ids (after (parse ?s qa_page)))
   \<and> card (seen_ids ?s)
        + length (follows (actions (run ?s (Parse qa_page # [Parse rt_page]))))
       < card (seen_ids (final (run ?s (Parse qa_page # [Parse rt_page]))))"
    by blast
  with a d f g show ?thesis by simp
qed

subsection \<open>The category filter\<close>

text \<open>
  Claim C6 fails for an entry whose identifier has been seen before, and for an entry
  whose URL \<^verbatim>\<open>response.follow\<close> refuses: in both cases the identifier can be extracted and
  the categories meet the target set, and nothing is dispatched; the second raises
  \<^verbatim>\<open>ValueError\<close>.
\<close>

theorem target_entry_not_dispatched:
  "entry_id rt_page (fst (entry_dt ''2401.00002'',
        entry_dd ''Quantum Algebra (math.QA); Representation Theory (math.RT)''))
     = Inr (Some (''2401.00002'', ''https://arxiv.org/abs/2401.00002''))
   \<and> paper_categories (snd (entry_dt ''2401.00002'',
        entry_dd ''Quantum Algebra (math.QA); Representation Theory (math.RT)''))
        \<inter> target_categories (after (parse (spider_init (Some ''math.RT,math.QA'')) qa_page))
       = {''math.QA'', ''math.RT''}
   \<and> parse_paper rt_page 1 (''cross'', 1)
         (after (parse (spider_init (Some ''math.RT,math.QA'')) qa_page))
         (entry_dt ''2401.00002'',
          entry_dd ''Quantum Algebra (math.QA); Representation Theory (math.RT)'')
       = ([], None, after (parse (spider_init (Some ''math.RT,math.QA'')) qa_page))
   \<and> entry_id mailto_page (fst (mailto_dt ''2401.00002'', entry_dd ''Quantum Algebra (math.QA)''))
     = Inr (Some (''2401.00002'', ''mailto:a/abs/2401.00002''))
   \<and> paper_categories (snd (mailto_dt ''2401.00002'', entry_dd ''Quantum Algebra (math.QA)''))
        \<inter> target_categories (spider_init (Some ''math.QA'')) = {''math.QA''}
   \<and> follow mailto_page ''mailto:a/abs/2401.00002'' = Inl ValueError
   \<and> parse_paper mailto_page 0 (''new'', 0) (spider_init (Some ''math.QA''))
         (mailto_dt ''2401.00002'', entry_dd ''Quantum Algebra (math.QA)'')
       = ([], Some ValueError, (spider_init (Some ''math.QA''))\<lparr>seen_ids := {''2401.00002''}\<rparr>)"
  by code_simp

text \<open>
  Claim C6, amended. For an entry whose identifier can be extracted and has not been seen
  before, a request is dispatched if and only if the categories declared meet the target
  set or the subject text is empty, and \<^verbatim>\<open>response.follow\<close> accepts the URL of the entry;
  the request carries the identifier, and the empty list of categories where the subject
  text is empty; an entry that the filter rejects gives the debug message and nothing
  else. An entry that passes the filter and whose URL \<^verbatim>\<open>response.follow\<close> refuses raises
  \<^verbatim>\<open>ValueError\<close>, yields nothing and ends the scan of the list, its identifier seen. An
  entry whose identifier was seen before yields nothing and logs nothing, whatever its
  categories.
\<close>

theorem included_iff_filter_and_request:
  assumes "entry_id response (fst p) = Inr (Some (i, u))"
  shows "(i \<notin> seen_ids self \<longrightarrow>
           ((\<exists>m. yielded (parse_paper response cp cur self p) = [Follow m])
             = ((paper_categories (snd p) \<inter> target_categories self \<noteq> {}
                  \<or> subjects_text (snd p) = [])
                \<and> (\<exists>v. follow response u = Inr v))))
   \<and> (i \<notin> seen_ids self
        \<and> (paper_categories (snd p) \<inter> target_categories self \<noteq> {} \<or> subjects_text (snd p) = [])
        \<and> follow response u = Inr v
       \<longrightarrow> parse_paper response cp cur self p
            = ([Follow \<lparr>m_id = i, m_section = fst cur, m_abs = u,
                        m_pdf = replace ''/abs/'' ''/pdf/'' u,
                        m_categories =
                          (if subjects_text (snd p) = [] then {} else paper_categories (snd p)),
                        m_cat_priority = cp, m_section_rank = snd cur\<rparr>],
               None, self\<lparr>seen_ids := insert i (seen_ids self)\<rparr>))
   \<and> (i \<notin> seen_ids self
        \<and> \<not> (paper_categories (snd p) \<inter> target_categories self \<noteq> {} \<or> subjects_text (snd p) = [])
       \<longrightarrow> parse_paper response cp cur self p
            = ([Debug i (paper_categories (snd p)) (target_categories self)], None,
               self\<lparr>seen_ids := insert i (seen_ids self)\<rparr>))
   \<and> (i \<notin> seen_ids self
        \<and> (paper_categories (snd p) \<inter> target_categories self \<noteq> {} \<or> subjects_text (snd p) = [])
        \<and> follow response u = Inl e
       \<longrightarrow> parse_paper response cp cur self p
            = ([], Some e, self\<lparr>seen_ids := insert i (seen_ids self)\<rparr>)
          \<and> parse_papers response cp cur self (p # ps)
            = ([], Some e, self\<lparr>seen_ids := insert i (seen_ids self)\<rparr>))
   \<and> (i \<in> seen_ids self \<longrightarrow> parse_paper response cp cur self p = ([], None, self))"
proof (cases "i \<in> seen_ids self")
  case True
  with assms show ?thesis by (simp add: parse_paper_seen)
next
  case False
  note n = parse_paper_new [OF assms False, of cp cur]
  show ?thesis
  proof (cases "follow response u")
    case (Inl x)
    with False n show ?thesis
      by (auto simp: yielded_def and_then_Some)
  next
    case (Inr x)
    with False n show ?thesis
      by (auto simp: yielded_def)
  qed
qed

theorem included_iff_filter_and_request_witness:
  "entry_id qa_page (fst (entry_dt ''2401.00005'', \<lparr>list_subjects = ['' '']\<rparr>))
      = Inr (Some (''2401.00005'', ''https://arxiv.org/abs/2401.00005''))
   \<and> ''2401.00005'' \<notin> seen_ids (spider_init (Some ''math.QA''))
   \<and> subjects_text (snd (entry_dt ''2401.00005'', \<lparr>list_subjects = ['' '']\<rparr>)) = []
   \<and> follow qa_page ''https://arxiv.org/abs/2401.00005'' = Inr ''https://arxiv.org/abs/2401.00005''
   \<and> parse_paper qa_page 0 (''new'', 0) (spider_init (Some ''math.QA''))
         (entry_dt ''2401.00005'', \<lparr>list_subjects = ['' '']\<rparr>)
       = ([Follow \<lparr>m_id = ''2401.00005'', m_section = fst (''new'', 0::int),
                   m_abs = ''https://arxiv.org/abs/2401.00005'',
                   m_pdf = replace ''/abs/'' ''/pdf/'' ''https://arxiv.org/abs/2401.00005'',
                   m_categories =
                     (if subjects_text (snd (entry_dt ''2401.00005'', \<lparr>list_subjects = ['' '']\<rparr>)) = []
                      then {}
                      else paper_categories (snd (entry_dt ''2401.00005'', \<lparr>list_subjects = ['' '']\<rparr>))),
                   m_cat_priority = 0, m_section_rank = snd (''new'', 0::int)\<rparr>],
          None,
          (spider_init (Some ''math.QA''))
            \<lparr>seen_ids := insert ''2401.00005'' (seen_ids (spider_init (Some ''math.QA'')))\<rparr>)"
proof -
  let ?p = "(entry_dt ''2401.00005'', \<lparr>list_subjects = ['' '']\<rparr>)"
  let ?s = "spider_init (Some ''math.QA'')"
  have a: "entry_id qa_page (fst ?p)
      = Inr (Some (''2401.00005'', ''https://arxiv.org/abs/2401.00005''))"
    by code_simp
  have b: "''2401.00005'' \<notin> seen_ids ?s"
    by code_simp
  have c: "subjects_text (snd ?p) = []"
    by code_simp
  have d: "follow qa_page ''https://arxiv.org/abs/2401.00005''
      = Inr ''https://arxiv.org/abs/2401.00005''"
    by code_simp
  from included_iff_filter_and_request [OF a, where self = ?s and cp = 0
      and cur = "(''new'', 0)" and v = "''https://arxiv.org/abs/2401.00005''"] b c d
  have "parse_paper qa_page 0 (''new'', 0) ?s ?p
       = ([Follow \<lparr>m_id = ''2401.00005'', m_section = fst (''new'', 0::int),
                   m_abs = ''https://arxiv.org/abs/2401.00005'',
                   m_pdf = replace ''/abs/'' ''/pdf/'' ''https://arxiv.org/abs/2401.00005'',
                   m_categories =
                     (if subjects_text (snd ?p) = [] then {} else paper_categories (snd ?p)),
                   m_cat_priority = 0, m_section_rank = snd (''new'', 0::int)\<rparr>],
          None, ?s\<lparr>seen_ids := insert ''2401.00005'' (seen_ids ?s)\<rparr>)"
    by blast
  with a b c d show ?thesis by blast
qed

subsection \<open>The section of an entry\<close>

text \<open>
  Claim C8. The section of a heading is the one the specification names for the phrases
  in its text, taken in lower case: \<open>new\<close> with rank 0, \<open>cross\<close> with rank 1, \<open>repl\<close> with
  rank 2, singular or plural, and \<open>other\<close> with rank 3 for every other heading. The scan
  starts in \<open>other\<close> with rank 3; a heading sets the section, a list block leaves it; and
  the requests of a list block carry the section and the rank in force at that block,
  those of the last heading before it.
\<close>

theorem section_state_of_scan:
  "heading_section texts = spec_section (lower (strip (concat texts)))
   \<and> parse self response
       = parse_blocks response (priority (source_cat (url response))) (''other'', 3) self
           (dlpage response)
   \<and> section_after cur [] = cur
   \<and> section_after cur (pre @ [H3 texts]) = heading_section texts
   \<and> section_after cur (pre @ [DL dts dds]) = section_after cur pre
   \<and> parse_blocks response cp cur self (pre @ DL dts dds # post) =
       and_then (parse_blocks response cp cur self pre)
         (\<lambda>s0. and_then (parse_papers response cp (section_after cur pre) s0 (zip dts dds))
            (\<lambda>s1. parse_blocks response cp (section_after cur pre) s1 post))
   \<and> (\<forall>m\<in>set (follows (fst (parse_papers response cp sec self (zip dts dds)))).
          m_section m = fst sec \<and> m_section_rank m = snd sec)"
proof -
  have "\<forall>m\<in>set (follows (fst (parse_papers response cp sec self (zip dts dds)))).
          m_section m = fst sec \<and> m_section_rank m = snd sec"
    using parse_papers_carries [of response cp sec self "zip dts dds"]
    by (simp add: yielded_def)
  moreover have "parse_blocks response cp cur self (pre @ DL dts dds # post) =
       and_then (parse_blocks response cp cur self pre)
         (\<lambda>s0. and_then (parse_papers response cp (section_after cur pre) s0 (zip dts dds))
            (\<lambda>s1. parse_blocks response cp (section_after cur pre) s1 post))"
    by (simp add: parse_blocks_append)
  moreover have "section_after cur (pre @ [H3 texts]) = heading_section texts"
    and "section_after cur (pre @ [DL dts dds]) = section_after cur pre"
    by (simp_all add: section_after_append)
  ultimately show ?thesis
    by (simp add: heading_section_spec parse_def)
qed

theorem section_state_of_scan_witness:
  "stub ''2401.00002'' ''cross'' {''math.QA'', ''math.RT''} 1 1
     \<in> set (follows (fst (parse_papers rt_page 1 (''cross'', 1)
           (spider_init (Some ''math.RT,math.QA''))
           (zip [entry_dt ''2401.00002'']
                [entry_dd ''Quantum Algebra (math.QA); Representation Theory (math.RT)'']))))
   \<and> m_section (stub ''2401.00002'' ''cross'' {''math.QA'', ''math.RT''} 1 1) = fst (''cross'', 1::int)
   \<and> m_section_rank (stub ''2401.00002'' ''cross'' {''math.QA'', ''math.RT''} 1 1) = snd (''cross'', 1::int)
   \<and> heading_section [''Cross submissions (showing 2 of 3 entries)'']
       = spec_section ''cross submissions (showing 2 of 3 entries)''
   \<and> heading_section [''Cross submissions (showing 2 of 3 entries)''] = (''cross'', 1)"
proof -
  have h: "stub ''2401.00002'' ''cross'' {''math.QA'', ''math.RT''} 1 1
     \<in> set (follows (fst (parse_papers rt_page 1 (''cross'', 1)
           (spider_init (Some ''math.RT,math.QA''))
           (zip [entry_dt ''2401.00002'']
                [entry_dd ''Quantum Algebra (math.QA); Representation Theory (math.RT)'']))))"
    by code_simp
  have l: "lower (strip (concat [''Cross submissions (showing 2 of 3 entries)'']))
      = ''cross submissions (showing 2 of 3 entries)''"
    by code_simp
  have v: "heading_section [''Cross submissions (showing 2 of 3 entries)''] = (''cross'', 1)"
    by code_simp
  note t = section_state_of_scan
    [where texts = "[''Cross submissions (showing 2 of 3 entries)'']" and response = rt_page
       and cp = 1 and sec = "(''cross'', 1)" and self = "spider_init (Some ''math.RT,math.QA'')"
       and dts = "[entry_dt ''2401.00002'']"
       and dds = "[entry_dd ''Quantum Algebra (math.QA); Representation Theory (math.RT)'']"]
  from t h have a: "m_section (stub ''2401.00002'' ''cross'' {''math.QA'', ''math.RT''} 1 1)
        = fst (''cross'', 1::int)
     \<and> m_section_rank (stub ''2401.00002'' ''cross'' {''math.QA'', ''math.RT''} 1 1)
        = snd (''cross'', 1::int)"
    by blast
  from t l have b: "heading_section [''Cross submissions (showing 2 of 3 entries)'']
       = spec_section ''cross submissions (showing 2 of 3 entries)''"
    by simp
  from h a b v show ?thesis by blast
qed

subsection \<open>Malformed entries\<close>

lemma entry_href_None:
  "(entry_href d = None) = (\<not> truthy (abstract_href d) \<and> \<not> truthy (abs_href d))"
  by (auto simp: entry_href_def Let_def truthy_def split: option.splits)

text \<open>
  Claim C10 fails for a link that \<^verbatim>\<open>response.urljoin\<close> refuses: the first entry of the page
  has such a link, which has not the shape of an identifier; the call of line 90 raises
  \<^verbatim>\<open>ValueError\<close>, \<^verbatim>\<open>parse\<close> ends there, and the well-formed entry after it is never
  scanned, while the same page without the first entry gives its request.
\<close>

theorem refused_link_aborts_scan:
  "entry_href bad_link_dt = Some ''http://[bad''
   \<and> search rx_abs_id ''http://[bad'' = None
   \<and> urljoin bad_link_page ''http://[bad'' = Inl ValueError
   \<and> parse (spider_init (Some ''math.QA'')) bad_link_page
       = ([], Some ValueError, spider_init (Some ''math.QA''))
   \<and> parse (spider_init (Some ''math.QA''))
        (listing_page ''math.QA''
           [H3 [''New submissions (showing 2 of 2 entries)''],
            DL [entry_dt ''2401.00001''] [entry_dd ''Quantum Algebra (math.QA)'']])
       = ([Follow (stub ''2401.00001'' ''new'' {''math.QA''} 0 0)], None,
          (spider_init (Some ''math.QA''))\<lparr>seen_ids := {''2401.00001''}\<rparr>)"
  by code_simp

text \<open>
  Claim C10, amended. An entry with no link, or whose link \<^verbatim>\<open>response.urljoin\<close> resolves
  to a URL that has not the shape of an identifier, yields nothing, logs nothing, raises
  nothing and changes nothing; the scan of the list and of the page goes on as if the
  entry were not there. An entry whose link \<^verbatim>\<open>response.urljoin\<close> refuses raises
  \<^verbatim>\<open>ValueError\<close>: the scan of the page ends at that entry, with nothing yielded for it or
  for the entries after it.
\<close>

theorem unmatched_link_skipped:
  "((\<not> truthy (abstract_href (fst p)) \<and> \<not> truthy (abs_href (fst p)))
      \<or> (\<exists>h u. entry_href (fst p) = Some h \<and> urljoin response h = Inr u
                \<and> search rx_abs_id u = None)
     \<longrightarrow> parse_paper response cp cur self p = ([], None, self)
        \<and> parse_papers response cp cur self (ps1 @ p # ps2)
            = parse_papers response cp cur self (ps1 @ ps2)
        \<and> (zip dts dds = ps1 @ p # ps2 \<longrightarrow>
             parse_blocks response cp cur self (bs1 @ DL dts dds # bs2)
               = parse_blocks response cp cur self
                   (bs1 @ DL (map fst (ps1 @ ps2)) (map snd (ps1 @ ps2)) # bs2)))
   \<and> (entry_href (fst p) = Some h \<and> urljoin response h = Inl e
     \<longrightarrow> parse_paper response cp cur self p = ([], Some e, self)
        \<and> parse_papers response cp cur self (p # ps) = ([], Some e, self)
        \<and> (zip dts dds = p # ps \<longrightarrow>
             parse_blocks response cp cur self (DL dts dds # bs2) = ([], Some e, self)))"
proof (intro conjI impI)
  assume a: "(\<not> truthy (abstract_href (fst p)) \<and> \<not> truthy (abs_href (fst p)))
      \<or> (\<exists>h u. entry_href (fst p) = Some h \<and> urljoin response h = Inr u
                \<and> search rx_abs_id u = None)"
  then have n: "entry_id response (fst p) = Inr None"
    by (auto simp: entry_id_def entry_href_None [symmetric])
  then show "parse_paper response cp cur self p = ([], None, self)"
    by (rule parse_paper_no_id)
  from n show "parse_papers response cp cur self (ps1 @ p # ps2)
            = parse_papers response cp cur self (ps1 @ ps2)"
    by (rule parse_papers_skip)
  assume z: "zip dts dds = ps1 @ p # ps2"
  have "\<And>c s. parse_blocks response cp c s (DL dts dds # bs2)
      = parse_blocks response cp c s (DL (map fst (ps1 @ ps2)) (map snd (ps1 @ ps2)) # bs2)"
    using parse_papers_skip [OF n, of cp _ _ ps1 ps2] z
    by (simp add: zip_map_fst_snd)
  then show "parse_blocks response cp cur self (bs1 @ DL dts dds # bs2)
          = parse_blocks response cp cur self
              (bs1 @ DL (map fst (ps1 @ ps2)) (map snd (ps1 @ ps2)) # bs2)"
    by (simp only: parse_blocks_append [of _ _ _ _ bs1])
next
  assume a: "entry_href (fst p) = Some h \<and> urljoin response h = Inl e"
  then have r: "entry_id response (fst p) = Inl e"
    by (simp add: entry_id_def)
  then show 1: "parse_paper response cp cur self p = ([], Some e, self)"
    by (rule parse_paper_raise)
  then show 2: "parse_papers response cp cur self (p # ps) = ([], Some e, self)"
    by (simp add: and_then_Some)
  assume "zip dts dds = p # ps"
  with 2 show "parse_blocks response cp cur self (DL dts dds # bs2) = ([], Some e, self)"
    by (simp add: and_then_Some)
qed

theorem unmatched_link_skipped_witness:
  "\<not> truthy (abstract_href (fst (no_link_dt, entry_dd ''Quantum Algebra (math.QA)'')))
   \<and> \<not> truthy (abs_href (fst (no_link_dt, entry_dd ''Quantum Algebra (math.QA)'')))
   \<and> parse_paper qa_page 0 (''new'', 0) (spider_init (Some ''math.QA''))
        (no_link_dt, entry_dd ''Quantum Algebra (math.QA)'')
       = ([], None, spider_init (Some ''math.QA''))
   \<and> entry_href (fst (entry_dt ''math/0301001'', entry_dd ''Quantum Algebra (math.QA)''))
       = Some ''/abs/math/0301001''
   \<and> urljoin qa_page ''/abs/math/0301001'' = Inr ''https://arxiv.org/abs/math/0301001''
   \<and> search rx_abs_id ''https://arxiv.org/abs/math/0301001'' = None
   \<and> parse_papers qa_page 0 (''new'', 0) (spider_init (Some ''math.QA''))
        ([(entry_dt ''2401.00002'', entry_dd ''Quantum Algebra (math.QA)'')]
         @ (entry_dt ''math/0301001'', entry_dd ''Quantum Algebra (math.QA)'')
         # [(entry_dt ''2401.00001'', entry_dd ''Quantum Algebra (math.QA)'')])
       = parse_papers qa_page 0 (''new'', 0) (spider_init (Some ''math.QA''))
        ([(entry_dt ''2401.00002'', entry_dd ''Quantum Algebra (math.QA)'')]
         @ [(entry_dt ''2401.00001'', entry_dd ''Quantum Algebra (math.QA)'')])
   \<and> entry_href (fst (bad_link_dt, entry_dd ''Quantum Algebra (math.QA)'')) = Some ''http://[bad''
   \<and> urljoin qa_page ''http://[bad'' = Inl ValueError
   \<and> parse_papers qa_page 0 (''new'', 0) (spider_init (Some ''math.QA''))
        ((bad_link_dt, entry_dd ''Quantum Algebra (math.QA)'')
         # [(entry_dt ''2401.00001'', entry_dd ''Quantum Algebra (math.QA)'')])
       = ([], Some ValueError, spider_init (Some ''math.QA''))"
proof -
  let ?s = "spider_init (Some ''math.QA'')"
  let ?p = "(no_link_dt, entry_dd ''Quantum Algebra (math.QA)'')"
  let ?q = "(entry_dt ''math/0301001'', entry_dd ''Quantum Algebra (math.QA)'')"
  let ?b = "(bad_link_dt, entry_dd ''Quantum Algebra (math.QA)'')"
  have a: "\<not> truthy (abstract_href (fst ?p)) \<and> \<not> truthy (abs_href (fst ?p))"
    by code_simp
  have b: "entry_href (fst ?q) = Some ''/abs/math/0301001''
      \<and> urljoin qa_page ''/abs/math/0301001'' = Inr ''https://arxiv.org/abs/math/0301001''
      \<and> search rx_abs_id ''https://arxiv.org/abs/math/0301001'' = None"
    by code_simp
  have c: "entry_href (fst ?b) = Some ''http://[bad''
      \<and> urljoin qa_page ''http://[bad'' = Inl ValueError"
    by code_simp
  from a have a': "(\<not> truthy (abstract_href (fst ?p)) \<and> \<not> truthy (abs_href (fst ?p)))
      \<or> (\<exists>h u. entry_href (fst ?p) = Some h \<and> urljoin qa_page h = Inr u
                \<and> search rx_abs_id u = None)"
    by blast
  from b have b': "(\<not> truthy (abstract_href (fst ?q)) \<and> \<not> truthy (abs_href (fst ?q)))
      \<or> (\<exists>h u. entry_href (fst ?q) = Some h \<and> urljoin qa_page h = Inr u
                \<and> search rx_abs_id u = None)"
    by blast
  from unmatched_link_skipped [where p = ?p and response = qa_page and cp = 0
      and cur = "(''new'', 0)" and self = ?s] a'
  have 1: "parse_paper qa_page 0 (''new'', 0) ?s ?p = ([], None, ?s)"
    by blast
  from unmatched_link_skipped [where p = ?q and response = qa_page and cp = 0
      and cur = "(''new'', 0)" and self = ?s
      and ?ps1.0 = "[(entry_dt ''2401.00002'', entry_dd ''Quantum Algebra (math.QA)'')]"
      and ?ps2.0 = "[(entry_dt ''2401.00001'', entry_dd ''Quantum Algebra (math.QA)'')]"] b'
  have 2: "parse_papers qa_page 0 (''new'', 0) ?s
        ([(entry_dt ''2401.00002'', entry_dd ''Quantum Algebra (math.QA)'')] @ ?q
         # [(entry_dt ''2401.00001'', entry_dd ''Quantum Algebra (math.QA)'')])
       = parse_papers qa_page 0 (''new'', 0) ?s
        ([(entry_dt ''2401.00002'', entry_dd ''Quantum Algebra (math.QA)'')]
         @ [(entry_dt ''2401.00001'', entry_dd ''Quantum Algebra (math.QA)'')])"
    by blast
  from unmatched_link_skipped [where p = ?b and response = qa_page and cp = 0
      and cur = "(''new'', 0)" and self = ?s and h = "''http://[bad''" and e = ValueError
      and ps = "[(entry_dt ''2401.00001'', entry_dd ''Quantum Algebra (math.QA)'')]"] c
  have 3: "parse_papers qa_page 0 (''new'', 0) ?s
        (?b # [(entry_dt ''2401.00001'', entry_dd ''Quantum Algebra (math.QA)'')])
       = ([], Some ValueError, ?s)"
    by blast
  from a b c 1 2 3 show ?thesis by blast
qed

end
